theory Spec2Isabelle
  imports Main "HOL-Library.Word"
begin

unbundle bit_operations_syntax

section \<open>Machine model\<close>

text \<open>
  The kernel code of \<^verbatim>\<open>kernel/vmm.c\<close> works on physical memory through raw pointers.
  Physical memory is a store of 8-byte cells keyed by the byte address of the object
  stored there: every page-table entry, every link and every field of a metadata
  node is one cell.  The two 16-bit fields of a \<^verbatim>\<open>segment_info\<close> are cells of their own,
  at their own byte offsets, holding a 16-bit value.  A null pointer is the address 0.
\<close>

type_synonym u64 = "64 word"
type_synonym addr = "64 word"
type_synonym cint = "32 word"
type_synonym memory = "addr \<Rightarrow> u64"

datatype error =
  Panic_page_walk
| Panic_map_pages
| Panic_user_vm_map
| Fault

text \<open>
  The state the functions of \<^verbatim>\<open>vmm.c\<close> read and write: physical memory, the free list
  of the physical page allocator, the bump cursor \<^verbatim>\<open>g_ufree_page\<close>, the root page
  table of the running process (\<^verbatim>\<open>current->pagetable\<close>), the addresses the linker gave
  to the four global list heads (they never change; the heads themselves, two links each,
  live in memory), and the lines that \<^verbatim>\<open>alloc_page_with_vm\<close> prints on the console, as
  pairs (pa, va), oldest first.
\<close>

record kstate =
  mem :: memory
  free_mem :: "addr list"
  g_ufree_page :: u64
  current_pagetable :: addr
  valid_page_info_head :: addr
  empty_page_info_head :: addr
  valid_segment_info_head :: addr
  empty_segment_info_head :: addr
  console :: "(u64 \<times> u64) list"

subsection \<open>Platform constants and macros\<close>

text \<open>
  Modelled from the spec: \<^verbatim>\<open>riscv.h\<close> and \<^verbatim>\<open>util/functions.h\<close> are not among the sources.
  The spec fixes a page table of 512 eight-byte entries filling one page, three levels
  indexed by 9-bit slices of the virtual address, the standard Sv39 permission bit
  positions, and a maximum virtual address; the values are those of Sv39.
\<close>

definition PGSIZE :: u64 where "PGSIZE = 4096"
definition PGSHIFT :: nat where "PGSHIFT = 12"
definition MAXVA :: u64 where "MAXVA = 2 ^ 38"

definition PTE_V :: u64 where "PTE_V = 1"
definition PTE_R :: u64 where "PTE_R = 2"
definition PTE_W :: u64 where "PTE_W = 4"
definition PTE_X :: u64 where "PTE_X = 8"
definition PTE_U :: u64 where "PTE_U = 16"
definition PTE_A :: u64 where "PTE_A = 64"
definition PTE_D :: u64 where "PTE_D = 128"

definition PA2PTE :: "u64 \<Rightarrow> u64" where
  "PA2PTE pa = push_bit 10 (drop_bit 12 pa)"

definition PTE2PA :: "u64 \<Rightarrow> u64" where
  "PTE2PA pte = push_bit 12 (drop_bit 10 pte)"

definition PX :: "nat \<Rightarrow> u64 \<Rightarrow> u64" where
  "PX level va = drop_bit (PGSHIFT + 9 * level) va AND 511"

definition ROUNDDOWN :: "u64 \<Rightarrow> u64 \<Rightarrow> u64" where
  "ROUNDDOWN a b = a div b * b"

text \<open>Permission codes of \<^verbatim>\<open>enum VMPermision\<close> (vmm.h).\<close>

definition PROT_NONE :: cint where "PROT_NONE = 0"
definition PROT_READ :: cint where "PROT_READ = 1"
definition PROT_WRITE :: cint where "PROT_WRITE = 2"
definition PROT_EXEC :: cint where "PROT_EXEC = 4"

text \<open>
  Field offsets and sizes of the metadata structs of vmm.h on the 64-bit target:
  \<^verbatim>\<open>pre\<close> at 0 and \<^verbatim>\<open>suc\<close> at 8 in every node; \<^verbatim>\<open>va\<close> at 16; in a \<^verbatim>\<open>page_info\<close>
  \<^verbatim>\<open>head\<close> at 24 and \<^verbatim>\<open>next\<close> at 32; in a \<^verbatim>\<open>segment_info\<close> \<^verbatim>\<open>size\<close> at 24 and
  \<^verbatim>\<open>occupy\<close> at 26.
\<close>

definition sizeof_page_info :: int where "sizeof_page_info = 40"
definition sizeof_segment_info :: int where "sizeof_segment_info = 32"

definition pre_of :: "memory \<Rightarrow> addr \<Rightarrow> addr" where "pre_of m p = m p"
definition suc_of :: "memory \<Rightarrow> addr \<Rightarrow> addr" where "suc_of m p = m (p + 8)"
definition va_of :: "memory \<Rightarrow> addr \<Rightarrow> u64" where "va_of m p = m (p + 16)"
definition next_of :: "memory \<Rightarrow> addr \<Rightarrow> addr" where "next_of m p = m (p + 32)"
definition size_of :: "memory \<Rightarrow> addr \<Rightarrow> 16 word" where "size_of m p = ucast (m (p + 24))"
definition occupy_of :: "memory \<Rightarrow> addr \<Rightarrow> 16 word" where "occupy_of m p = ucast (m (p + 26))"

definition set_pre :: "addr \<Rightarrow> addr \<Rightarrow> memory \<Rightarrow> memory" where
  "set_pre p v m = m(p := v)"
definition set_suc :: "addr \<Rightarrow> addr \<Rightarrow> memory \<Rightarrow> memory" where
  "set_suc p v m = m(p + 8 := v)"
definition set_va :: "addr \<Rightarrow> u64 \<Rightarrow> memory \<Rightarrow> memory" where
  "set_va p v m = m(p + 16 := v)"
definition set_next :: "addr \<Rightarrow> addr \<Rightarrow> memory \<Rightarrow> memory" where
  "set_next p v m = m(p + 32 := v)"
definition set_size :: "addr \<Rightarrow> 16 word \<Rightarrow> memory \<Rightarrow> memory" where
  "set_size p v m = m(p + 24 := ucast v)"
definition set_occupy :: "addr \<Rightarrow> 16 word \<Rightarrow> memory \<Rightarrow> memory" where
  "set_occupy p v m = m(p + 26 := ucast v)"

text \<open>\<^verbatim>\<open>memset(p, 0, n)\<close>: every cell whose address lies in the n bytes from p is cleared.\<close>

definition memset0 :: "addr \<Rightarrow> u64 \<Rightarrow> memory \<Rightarrow> memory" where
  "memset0 p n m = (\<lambda>a. if a - p < n then 0 else m a)"

subsection \<open>The physical page allocator\<close>

text \<open>
  Modelled from the spec: \<^verbatim>\<open>pmm.c\<close> is not among the sources.  The spec gives
  \<^verbatim>\<open>allocate_one_physical_page() -> address\<close>, which fails by returning null when
  exhausted, and \<^verbatim>\<open>free_one_physical_page(address)\<close>.  The allocator is a list of free
  pages: allocation takes the first, freeing puts the page in front.
\<close>

definition alloc_page :: "kstate \<Rightarrow> addr \<times> kstate" where
  "alloc_page s =
     (case free_mem s of
        [] \<Rightarrow> (0, s)
      | p # ps \<Rightarrow> (p, s\<lparr>free_mem := ps\<rparr>))"

definition free_page :: "addr \<Rightarrow> kstate \<Rightarrow> kstate" where
  "free_page pa s = s\<lparr>free_mem := pa # free_mem s\<rparr>"

section \<open>Page tables\<close>

text \<open>vmm.c, \<^verbatim>\<open>prot_to_type\<close>.\<close>

definition prot_to_type :: "cint \<Rightarrow> cint \<Rightarrow> u64" where
  "prot_to_type prot user =
     (let perm = 0;
          perm = (if prot AND PROT_READ \<noteq> 0 then perm OR PTE_R OR PTE_A else perm);
          perm = (if prot AND PROT_WRITE \<noteq> 0 then perm OR PTE_W OR PTE_D else perm);
          perm = (if prot AND PROT_EXEC \<noteq> 0 then perm OR PTE_X OR PTE_A else perm);
          perm = (if perm = 0 then PTE_R else perm);
          perm = (if user \<noteq> 0 then perm OR PTE_U else perm)
      in perm)"

text \<open>
  One round of the loop of \<^verbatim>\<open>page_walk\<close>: from table \<open>pt\<close> at \<open>level\<close> to the table of
  the next level; the result 0 is the null pointer of the early \<^verbatim>\<open>return 0\<close>.
\<close>

definition page_walk_level :: "addr \<Rightarrow> nat \<Rightarrow> u64 \<Rightarrow> cint \<Rightarrow> kstate \<Rightarrow> addr option \<times> kstate" where
  "page_walk_level pt level va alloc s =
     (let pte = pt + 8 * PX level va in
      if mem s pte AND PTE_V \<noteq> 0 then (Some (PTE2PA (mem s pte)), s)
      else if alloc \<noteq> 0 then
        (case alloc_page s of (npt, s1) \<Rightarrow>
           if npt \<noteq> 0 then
             (Some npt, s1\<lparr>mem := (memset0 npt PGSIZE (mem s1))(pte := PA2PTE npt OR PTE_V)\<rparr>)
           else (None, s1))
      else (None, s))"

text \<open>
  vmm.c, \<^verbatim>\<open>page_walk\<close>: the address of the leaf entry of \<open>va\<close>, or 0; it panics when
  \<open>va\<close> is not below MAXVA.  When a table cannot be had, the state keeps what was built
  before.
\<close>

definition page_walk :: "addr \<Rightarrow> u64 \<Rightarrow> cint \<Rightarrow> kstate \<Rightarrow> error + (addr \<times> kstate)" where
  "page_walk page_dir va alloc s =
     (if MAXVA \<le> va then Inl Panic_page_walk
      else
        (case page_walk_level page_dir 2 va alloc s of
           (None, s1) \<Rightarrow> Inr (0, s1)
         | (Some pt1, s1) \<Rightarrow>
             (case page_walk_level pt1 1 va alloc s1 of
                (None, s2) \<Rightarrow> Inr (0, s2)
              | (Some pt0, s2) \<Rightarrow> Inr (pt0 + 8 * PX 0 va, s2))))"

text \<open>vmm.c, \<^verbatim>\<open>lookup_pa\<close>.\<close>

definition lookup_pa :: "addr \<Rightarrow> u64 \<Rightarrow> kstate \<Rightarrow> error + u64" where
  "lookup_pa pagetable va s =
     (if MAXVA \<le> va then Inr 0
      else
        (case page_walk pagetable va 0 s of
           Inl e \<Rightarrow> Inl e
         | Inr (pte, s1) \<Rightarrow>
             if pte = 0 \<or> mem s1 pte AND PTE_V = 0
                \<or> (mem s1 pte AND PTE_R = 0 \<and> mem s1 pte AND PTE_W = 0)
             then Inr 0
             else Inr (PTE2PA (mem s1 pte))))"

text \<open>
  vmm.c, \<^verbatim>\<open>map_pages\<close>.  The loop goes on only after \<^verbatim>\<open>page_walk\<close> has returned, so
  only below MAXVA: it ends.  The result is the panic, or the return value with the
  state reached.
\<close>

lemma page_walk_Inr_below: "page_walk pd va alloc s = Inr r \<Longrightarrow> va < MAXVA"
  by (auto simp: page_walk_def split: if_splits)

lemma walk_measure: "va < MAXVA \<Longrightarrow> unat MAXVA - unat (va + PGSIZE) < unat MAXVA - unat va"
proof -
  assume a: "va < MAXVA"
  have m: "unat MAXVA = 2 ^ 38" by (simp add: MAXVA_def)
  from a have b: "unat va < 2 ^ 38" by (simp add: word_less_nat_alt m)
  have "unat (va + PGSIZE) = (unat va + 4096) mod 2 ^ 64"
    by (simp add: unat_word_ariths PGSIZE_def)
  with b have "unat (va + PGSIZE) = unat va + 4096" by simp
  with b m show ?thesis by simp
qed

function map_pages_loop ::
  "addr \<Rightarrow> u64 \<Rightarrow> u64 \<Rightarrow> u64 \<Rightarrow> cint \<Rightarrow> kstate \<Rightarrow> error + (cint \<times> kstate)" where
  "map_pages_loop page_dir first lastp pa perm s =
     (if first \<le> lastp then
        (case page_walk page_dir first 1 s of
           Inl e \<Rightarrow> Inl e
         | Inr (pte, s1) \<Rightarrow>
             if pte = 0 then Inr (- 1, s1)
             else if mem s1 pte AND PTE_V \<noteq> 0 then Inl Panic_map_pages
             else map_pages_loop page_dir (first + PGSIZE) lastp (pa + PGSIZE) perm
                    (s1\<lparr>mem := (mem s1)(pte := PA2PTE pa OR scast perm OR PTE_V)\<rparr>))
      else Inr (0, s))"
  by pat_completeness auto
termination
  by (relation "measure (\<lambda>(page_dir, first, lastp, pa, perm, s). unat MAXVA - unat first)")
     (auto dest!: page_walk_Inr_below intro: walk_measure)

definition map_pages :: "addr \<Rightarrow> u64 \<Rightarrow> u64 \<Rightarrow> u64 \<Rightarrow> cint \<Rightarrow> kstate \<Rightarrow> error + (cint \<times> kstate)" where
  "map_pages page_dir va sz pa perm s =
     map_pages_loop page_dir (ROUNDDOWN va PGSIZE) (ROUNDDOWN (va + sz - 1) PGSIZE) pa perm s"

text \<open>vmm.c, \<^verbatim>\<open>user_va_to_pa\<close>; the result 0 is NULL.\<close>

definition user_va_to_pa :: "addr \<Rightarrow> u64 \<Rightarrow> kstate \<Rightarrow> error + u64" where
  "user_va_to_pa page_dir va s =
     (case lookup_pa page_dir va s of
        Inl e \<Rightarrow> Inl e
      | Inr pa \<Rightarrow> if pa = 0 then Inr 0 else Inr (pa OR (va AND (push_bit PGSHIFT 1 - 1))))"

text \<open>vmm.c, \<^verbatim>\<open>user_vm_map\<close>.\<close>

definition user_vm_map :: "addr \<Rightarrow> u64 \<Rightarrow> u64 \<Rightarrow> u64 \<Rightarrow> cint \<Rightarrow> kstate \<Rightarrow> error + kstate" where
  "user_vm_map page_dir va sz pa perm s =
     (case map_pages page_dir va sz pa perm s of
        Inl e \<Rightarrow> Inl e
      | Inr (r, s1) \<Rightarrow> if r \<noteq> 0 then Inl Panic_user_vm_map else Inr s1)"

text \<open>
  vmm.c, \<^verbatim>\<open>user_vm_unmap\<close>.  The parameter \<open>free\<close> is not read by the body.
\<close>

function user_vm_unmap_loop :: "addr \<Rightarrow> u64 \<Rightarrow> u64 \<Rightarrow> kstate \<Rightarrow> error + kstate" where
  "user_vm_unmap_loop page_dir first lastp s =
     (if first \<le> lastp then
        (case page_walk page_dir first 1 s of
           Inl e \<Rightarrow> Inl e
         | Inr (pte, s1) \<Rightarrow>
             if pte = 0 then user_vm_unmap_loop page_dir (first + PGSIZE) lastp s1
             else
               (let s2 = s1\<lparr>mem := (mem s1)(pte := mem s1 pte AND NOT PTE_V)\<rparr>;
                    pa = PTE2PA (mem s2 pte)
                in user_vm_unmap_loop page_dir (first + PGSIZE) lastp (free_page pa s2)))
      else Inr s)"
  by pat_completeness auto
termination
  by (relation "measure (\<lambda>(page_dir, first, lastp, s). unat MAXVA - unat first)")
     (auto dest!: page_walk_Inr_below intro: walk_measure)

definition user_vm_unmap :: "addr \<Rightarrow> u64 \<Rightarrow> u64 \<Rightarrow> cint \<Rightarrow> kstate \<Rightarrow> error + kstate" where
  "user_vm_unmap page_dir va sz free s =
     user_vm_unmap_loop page_dir (ROUNDDOWN va PGSIZE) (ROUNDDOWN (va + sz - 1) PGSIZE) s"

section \<open>The metadata pools\<close>

text \<open>
  The functions of the allocator may run forever (a list walk on a cyclic list never
  meets NULL), may stop the kernel (a panic, or a write through a null pointer), or
  return: \<open>None\<close>, \<open>Some (Inl e)\<close>, \<open>Some (Inr x)\<close>.
\<close>

type_synonym 'a outcome = "(error + 'a) option"

definition bind_outcome :: "'a outcome \<Rightarrow> ('a \<Rightarrow> 'b outcome) \<Rightarrow> 'b outcome" where
  "bind_outcome x f =
     (case x of None \<Rightarrow> None | Some (Inl e) \<Rightarrow> Some (Inl e) | Some (Inr v) \<Rightarrow> f v)"

lemma bind_outcome_mono [partial_function_mono]:
  assumes mf: "mono_option B" and mg: "\<And>y. mono_option (\<lambda>f. C y f)"
  shows "mono_option (\<lambda>f. bind_outcome (B f) (\<lambda>y. C y f))"
proof (rule monotoneI)
  fix f g :: "'a \<Rightarrow> 'b option"
  assume fg: "fun_ord option_ord f g"
  from mf have 1: "option_ord (B f) (B g)" by (rule monotoneD) (rule fg)
  from mg have 2: "\<And>y. option_ord (C y f) (C y g)" by (rule monotoneD) (rule fg)
  show "option_ord (bind_outcome (B f) (\<lambda>y. C y f)) (bind_outcome (B g) (\<lambda>y. C y g))"
  proof (cases "B f")
    case None
    then show ?thesis by (simp add: bind_outcome_def flat_ord_def)
  next
    case (Some r)
    with 1 have g: "B g = Some r" by (simp add: flat_ord_def)
    show ?thesis
    proof (cases r)
      case (Inl e)
      with Some g show ?thesis by (simp add: bind_outcome_def flat_ord_def)
    next
      case (Inr v)
      with Some g 2 [of v] show ?thesis by (simp add: bind_outcome_def)
    qed
  qed
qed

text \<open>vmm.c, \<^verbatim>\<open>bid_linked_list_del\<close> and \<^verbatim>\<open>bid_linked_list_app\<close>, statement by statement.\<close>

definition bid_linked_list_del :: "addr \<Rightarrow> memory \<Rightarrow> memory" where
  "bid_linked_list_del p m =
     (let m1 = (if pre_of m p \<noteq> 0 then set_suc (pre_of m p) (suc_of m p) m else m);
          m2 = (if suc_of m1 p \<noteq> 0 then set_pre (suc_of m1 p) (pre_of m1 p) m1 else m1)
      in m2)"

definition bid_linked_list_app :: "addr \<Rightarrow> addr \<Rightarrow> memory \<Rightarrow> memory" where
  "bid_linked_list_app p np m =
     (let m1 = set_pre np p m;
          m2 = set_suc np (suc_of m1 p) m1;
          m3 = (if suc_of m2 p \<noteq> 0 then set_pre (suc_of m2 p) np m2 else m2);
          m4 = set_suc p np m3
      in m4)"

definition delete_element :: "addr \<Rightarrow> addr \<Rightarrow> memory \<Rightarrow> memory" where
  "delete_element emp p m = bid_linked_list_app emp p (bid_linked_list_del p m)"

text \<open>
  The loop of \<^verbatim>\<open>get_element\<close> that carves the new page: \<open>i\<close> and \<open>sz\<close> are C ints,
  and the loop does not end when \<open>sz\<close> is not positive.
\<close>

partial_function (option) get_element_carve ::
  "addr \<Rightarrow> addr \<Rightarrow> int \<Rightarrow> int \<Rightarrow> memory \<Rightarrow> memory option" where
  "get_element_carve emp pa sz i m =
     (if i + sz \<le> uint PGSIZE
      then get_element_carve emp pa sz (i + sz) (delete_element emp (pa + of_int i) m)
      else Some m)"

text \<open>
  vmm.c, \<^verbatim>\<open>get_element\<close>.  \<^verbatim>\<open>sizeof(pa)\<close> is the size of a \<^verbatim>\<open>uint64\<close>, 8.  The
  parameter \<open>valid\<close> is not read: the line that would put the node on the valid list is
  commented out.  \<^verbatim>\<open>memset\<close> on a null page and unlinking a null node are writes
  through a null pointer.
\<close>

definition get_element :: "addr \<Rightarrow> addr \<Rightarrow> int \<Rightarrow> kstate \<Rightarrow> (addr \<times> kstate) outcome" where
  "get_element valid emp sz s =
     bind_outcome
       (if suc_of (mem s) emp = 0 then
          (case alloc_page s of (pa, s1) \<Rightarrow>
             if pa = 0 then Some (Inl Fault)
             else
               (case get_element_carve emp pa sz 0 (memset0 pa 8 (mem s1)) of
                  None \<Rightarrow> None
                | Some m \<Rightarrow> Some (Inr (s1\<lparr>mem := m\<rparr>))))
        else Some (Inr s))
       (\<lambda>s2. let ret = suc_of (mem s2) emp in
              if ret = 0 then Some (Inl Fault)
              else Some (Inr (ret, s2\<lparr>mem := bid_linked_list_del ret (mem s2)\<rparr>)))"

definition delete_page_info :: "addr \<Rightarrow> kstate \<Rightarrow> kstate" where
  "delete_page_info p s = s\<lparr>mem := delete_element (empty_page_info_head s) p (mem s)\<rparr>"

definition get_page_info :: "kstate \<Rightarrow> (addr \<times> kstate) outcome" where
  "get_page_info s =
     get_element (valid_page_info_head s) (empty_page_info_head s) sizeof_page_info s"

definition delete_segment_info :: "addr \<Rightarrow> kstate \<Rightarrow> kstate" where
  "delete_segment_info p s = s\<lparr>mem := delete_element (empty_segment_info_head s) p (mem s)\<rparr>"

definition get_segment_info :: "kstate \<Rightarrow> (addr \<times> kstate) outcome" where
  "get_segment_info s =
     get_element (valid_segment_info_head s) (empty_segment_info_head s) sizeof_segment_info s"

section \<open>The heap allocator\<close>

text \<open>
  vmm.c, \<^verbatim>\<open>alloc_page_with_vm\<close>.  The entry returned by \<^verbatim>\<open>page_walk\<close> is written without
  a null check.
\<close>

definition alloc_page_with_vm :: "cint \<Rightarrow> kstate \<Rightarrow> error + (u64 \<times> kstate)" where
  "alloc_page_with_vm perm s =
     (case alloc_page s of (pa, s1) \<Rightarrow>
        let s2 = s1\<lparr>g_ufree_page := ROUNDDOWN (g_ufree_page s1 + PGSIZE - 1) PGSIZE\<rparr> in
        (case page_walk (current_pagetable s2) (g_ufree_page s2) 1 s2 of
           Inl e \<Rightarrow> Inl e
         | Inr (pte, s3) \<Rightarrow>
             if pte = 0 then Inl Fault
             else
               (let s4 = s3\<lparr>mem := (mem s3)(pte := PA2PTE pa OR scast perm OR PTE_V)\<rparr>;
                    ret = g_ufree_page s4;
                    s5 = s4\<lparr>g_ufree_page := g_ufree_page s4 + PGSIZE\<rparr>
                in Inr (ret, s5\<lparr>console := console s5 @ [(pa, ret)]\<rparr>))))"

text \<open>The loop of \<^verbatim>\<open>user_malloc_small\<close> and of \<^verbatim>\<open>user_free\<close> that prints the valid segments.\<close>

partial_function (option) sprint_segments :: "memory \<Rightarrow> addr \<Rightarrow> unit option" where
  "sprint_segments m p = (if p = 0 then Some () else sprint_segments m (suc_of m p))"

text \<open>The first-fit loop of \<^verbatim>\<open>user_malloc_small\<close>; the result is \<open>found\<close>, 0 for NULL.\<close>

partial_function (option) user_malloc_small_search :: "u64 \<Rightarrow> memory \<Rightarrow> addr \<Rightarrow> addr option" where
  "user_malloc_small_search sz m p =
     (if p = 0 then Some 0
      else if occupy_of m p = 0 \<and> sz \<le> ucast (size_of m p) then Some p
      else user_malloc_small_search sz m (suc_of m p))"

text \<open>
  vmm.c, \<^verbatim>\<open>user_malloc_small\<close>, in three parts: the block under \<^verbatim>\<open>if (!found)\<close>,
  the block under \<^verbatim>\<open>if (found->size > size)\<close>, and the function.
\<close>

definition user_malloc_small_fresh :: "cint \<Rightarrow> kstate \<Rightarrow> (addr \<times> kstate) outcome" where
  "user_malloc_small_fresh perm s =
     bind_outcome (get_segment_info s) (\<lambda>(found, s1).
       let s2 = s1\<lparr>mem := bid_linked_list_app (valid_segment_info_head s1) found (mem s1)\<rparr> in
       (case alloc_page_with_vm perm s2 of
          Inl e \<Rightarrow> Some (Inl e)
        | Inr (va, s3) \<Rightarrow>
            Some (Inr (found,
              s3\<lparr>mem := set_occupy found 0
                          (set_size found (ucast PGSIZE) (set_va found va (mem s3)))\<rparr>))))"

definition user_malloc_small_split :: "addr \<Rightarrow> u64 \<Rightarrow> kstate \<Rightarrow> kstate outcome" where
  "user_malloc_small_split found sz s =
     (if sz < ucast (size_of (mem s) found) then
        bind_outcome (get_segment_info s) (\<lambda>(rest, s1).
          let m1 = bid_linked_list_app found rest (mem s1);
              m2 = set_va rest (va_of m1 found + sz) m1;
              m3 = set_size rest (ucast (ucast (size_of m2 found) - sz)) m2;
              m4 = set_occupy rest 0 m3
          in Some (Inr (s1\<lparr>mem := m4\<rparr>)))
      else Some (Inr s))"

definition user_malloc_small :: "u64 \<Rightarrow> cint \<Rightarrow> kstate \<Rightarrow> (u64 \<times> kstate) outcome" where
  "user_malloc_small sz perm s =
     Option.bind (sprint_segments (mem s) (suc_of (mem s) (valid_segment_info_head s))) (\<lambda>_.
     Option.bind (user_malloc_small_search sz (mem s) (suc_of (mem s) (valid_segment_info_head s)))
     (\<lambda>found0.
       bind_outcome
         (if found0 = 0 then user_malloc_small_fresh perm s else Some (Inr (found0, s)))
         (\<lambda>(found, s1).
            let s2 = s1\<lparr>mem := set_occupy found 1 (mem s1)\<rparr> in
            bind_outcome (user_malloc_small_split found sz s2)
              (\<lambda>s3. let s4 = s3\<lparr>mem := set_size found (ucast sz) (mem s3)\<rparr>
                     in Some (Inr (va_of (mem s4) found, s4))))))"

text \<open>
  vmm.c, \<^verbatim>\<open>user_malloc_big\<close>: the loop runs \<open>pagenum\<close> times, \<open>pagenum\<close> a C int.
\<close>

fun user_malloc_big_loop :: "nat \<Rightarrow> addr \<Rightarrow> cint \<Rightarrow> kstate \<Rightarrow> kstate outcome" where
  "user_malloc_big_loop 0 lastp perm s = Some (Inr s)"
| "user_malloc_big_loop (Suc n) lastp perm s =
     bind_outcome (get_page_info s) (\<lambda>(now, s1).
       let s2 = (if lastp \<noteq> 0 then s1\<lparr>mem := set_next lastp now (mem s1)\<rparr> else s1) in
       (case alloc_page_with_vm perm s2 of
          Inl e \<Rightarrow> Some (Inl e)
        | Inr (va, s3) \<Rightarrow>
            user_malloc_big_loop n now perm (s3\<lparr>mem := set_va now va (mem s3)\<rparr>)))"

definition pagenum_of :: "u64 \<Rightarrow> cint" where
  "pagenum_of sz = ucast ((sz + PGSIZE + 1) div PGSIZE)"

definition user_malloc_big :: "u64 \<Rightarrow> cint \<Rightarrow> kstate \<Rightarrow> (u64 \<times> kstate) outcome" where
  "user_malloc_big sz perm s =
     (let s1 = s\<lparr>g_ufree_page := ROUNDDOWN (g_ufree_page s + PGSIZE - 1) PGSIZE\<rparr>;
          va = g_ufree_page s1;
          pagenum = pagenum_of sz
      in bind_outcome (user_malloc_big_loop (nat (sint pagenum)) 0 perm s1)
           (\<lambda>s2. Some (Inr (va, s2))))"

definition user_malloc :: "u64 \<Rightarrow> cint \<Rightarrow> kstate \<Rightarrow> (u64 \<times> kstate) outcome" where
  "user_malloc sz perm s =
     (if PGSIZE \<le> sz then user_malloc_big sz perm s else user_malloc_small sz perm s)"

text \<open>vmm.c, \<^verbatim>\<open>free_page_by_va\<close>.\<close>

definition free_page_by_va :: "u64 \<Rightarrow> kstate \<Rightarrow> error + kstate" where
  "free_page_by_va va s =
     (case page_walk (current_pagetable s) va 0 s of
        Inl e \<Rightarrow> Inl e
      | Inr (pte, s1) \<Rightarrow>
          if pte = 0 then Inr s1
          else
            (let s2 = s1\<lparr>mem := (mem s1)(pte := mem s1 pte AND NOT PTE_V)\<rparr>;
                 pa = PTE2PA (mem s2 pte)
             in Inr (free_page pa s2)))"

text \<open>vmm.c, \<^verbatim>\<open>user_free_small\<close>, statement by statement.\<close>

definition user_free_small :: "addr \<Rightarrow> kstate \<Rightarrow> error + kstate" where
  "user_free_small p s =
     (let s1 = s\<lparr>mem := set_occupy p 0 (mem s)\<rparr>;
          s2 = (if pre_of (mem s1) p \<noteq> 0 \<and> pre_of (mem s1) p \<noteq> valid_segment_info_head s1 then
                  (let L = pre_of (mem s1) p in
                   if ROUNDDOWN (va_of (mem s1) L) PGSIZE = ROUNDDOWN (va_of (mem s1) p) PGSIZE
                      \<and> occupy_of (mem s1) L = 0
                   then
                     (let m1 = set_va p (va_of (mem s1) L) (mem s1);
                          m2 = set_size p (size_of m1 p + size_of m1 L) m1
                      in delete_segment_info L (s1\<lparr>mem := m2\<rparr>))
                   else s1)
                else s1);
          s3 = (if suc_of (mem s2) p \<noteq> 0 then
                  (let R = suc_of (mem s2) p in
                   if ROUNDDOWN (va_of (mem s2) R) PGSIZE = ROUNDDOWN (va_of (mem s2) p) PGSIZE
                      \<and> occupy_of (mem s2) R = 0
                   then
                     (let m1 = set_size p (size_of (mem s2) p + size_of (mem s2) R) (mem s2)
                      in delete_segment_info R (s2\<lparr>mem := m1\<rparr>))
                   else s2)
                else s2)
      in if ucast (size_of (mem s3) p) = PGSIZE then free_page_by_va (va_of (mem s3) p) s3
         else Inr s3)"

text \<open>vmm.c, \<^verbatim>\<open>user_free_big\<close>: the walk along \<open>next\<close>.\<close>

partial_function (option) user_free_big :: "addr \<Rightarrow> kstate \<Rightarrow> kstate outcome" where
  "user_free_big q s =
     (if q = 0 then Some (Inr s)
      else
        (let nxt = next_of (mem s) q in
         (case free_page_by_va (va_of (mem s) q) s of
            Inl e \<Rightarrow> Some (Inl e)
          | Inr s1 \<Rightarrow> user_free_big nxt (delete_page_info q s1))))"

text \<open>The loop of \<^verbatim>\<open>user_free\<close> that looks for the segment at \<open>va\<close>; 0 when none is.\<close>

partial_function (option) user_free_search :: "u64 \<Rightarrow> memory \<Rightarrow> addr \<Rightarrow> addr option" where
  "user_free_search va m p =
     (if p = 0 then Some 0
      else if va_of m p = va then Some p
      else user_free_search va m (suc_of m p))"

text \<open>
  The second loop of \<^verbatim>\<open>user_free\<close>, over the valid page-info list; it has no
  \<^verbatim>\<open>break\<close> and reads \<^verbatim>\<open>p->suc\<close> after the call.
\<close>

partial_function (option) user_free_pages :: "u64 \<Rightarrow> addr \<Rightarrow> kstate \<Rightarrow> kstate outcome" where
  "user_free_pages va p s =
     (if p = 0 then Some (Inr s)
      else if next_of (mem s) p = 0 \<and> va_of (mem s) p = va then
        bind_outcome (user_free_big p s) (\<lambda>s1. user_free_pages va (suc_of (mem s1) p) s1)
      else user_free_pages va (suc_of (mem s) p) s)"

text \<open>vmm.c, \<^verbatim>\<open>user_free\<close>.\<close>

definition user_free :: "u64 \<Rightarrow> kstate \<Rightarrow> kstate outcome" where
  "user_free va s =
     Option.bind (sprint_segments (mem s) (suc_of (mem s) (valid_segment_info_head s))) (\<lambda>_.
     Option.bind (user_free_search va (mem s) (suc_of (mem s) (valid_segment_info_head s)))
     (\<lambda>p.
       bind_outcome (if p \<noteq> 0 then Some (user_free_small p s) else Some (Inr s))
         (\<lambda>s1. user_free_pages va (suc_of (mem s1) (valid_page_info_head s1)) s1)))"

section \<open>Properties\<close>

subsection \<open>The bump cursor\<close>

lemma unat_ROUNDDOWN: "unat (ROUNDDOWN a PGSIZE) = unat a div 4096 * 4096"
proof -
  have "unat (a div PGSIZE) = unat a div 4096" by (simp add: unat_div PGSIZE_def)
  moreover have "unat a div 4096 * 4096 < 2 ^ 64"
    using unsigned_less [of a, where 'a = nat] by (simp add: div_mult2_eq) 
  ultimately show ?thesis
    by (simp add: ROUNDDOWN_def unat_word_ariths PGSIZE_def)
qed

lemma unat_roundup:
  assumes "unat g \<le> 2 ^ 38"
  shows "unat (ROUNDDOWN (g + PGSIZE - 1) PGSIZE) = (unat g + 4095) div 4096 * 4096"
proof -
  have e: "g + PGSIZE - 1 = g + 4095" by (simp add: PGSIZE_def)
  have u: "unat (g + 4095) = unat g + 4095"
    using assms by (simp add: unat_word_ariths)
  show ?thesis by (simp only: e unat_ROUNDDOWN u)
qed

lemma MAXVA_unat: "unat MAXVA = 2 ^ 38" by (simp add: MAXVA_def)

text \<open>The part of the state that only \<^verbatim>\<open>alloc_page_with_vm\<close> and \<^verbatim>\<open>user_malloc_big\<close> write.\<close>

definition ctl :: "kstate \<Rightarrow> u64 \<times> (u64 \<times> u64) list \<times> addr \<times> addr \<times> addr \<times> addr \<times> addr" where
  "ctl s = (g_ufree_page s, console s, current_pagetable s, valid_page_info_head s,
            empty_page_info_head s, valid_segment_info_head s, empty_segment_info_head s)"

lemma ctl_mem [simp]: "ctl (s\<lparr>mem := m\<rparr>) = ctl s" by (simp add: ctl_def)
lemma ctl_free_mem [simp]: "ctl (s\<lparr>free_mem := m\<rparr>) = ctl s" by (simp add: ctl_def)

lemma alloc_page_ctl: "alloc_page s = (p, s') \<Longrightarrow> ctl s' = ctl s"
  by (auto simp: alloc_page_def split: list.splits)

lemma free_page_ctl [simp]: "ctl (free_page p s) = ctl s"
  by (simp add: free_page_def)

lemma page_walk_level_ctl: "page_walk_level pt l va a s = (r, s') \<Longrightarrow> ctl s' = ctl s"
  by (auto simp: page_walk_level_def Let_def split: if_splits prod.splits dest: alloc_page_ctl)

lemma page_walk_ctl: "page_walk pd va a s = Inr (pte, s') \<Longrightarrow> ctl s' = ctl s"
  by (auto simp: page_walk_def split: if_splits prod.splits option.splits
      dest!: page_walk_level_ctl)

lemma free_page_by_va_ctl: "free_page_by_va va s = Inr s' \<Longrightarrow> ctl s' = ctl s"
  by (auto simp: free_page_by_va_def Let_def split: sum.splits prod.splits if_splits dest!: page_walk_ctl)

lemma delete_segment_info_ctl [simp]: "ctl (delete_segment_info p s) = ctl s"
  by (simp add: delete_segment_info_def)

lemma delete_page_info_ctl [simp]: "ctl (delete_page_info p s) = ctl s"
  by (simp add: delete_page_info_def)

lemma user_free_small_ctl: "user_free_small p s = Inr s' \<Longrightarrow> ctl s' = ctl s"
  by (auto simp: user_free_small_def Let_def split: if_splits dest!: free_page_by_va_ctl)

lemma user_free_big_ctl:
  assumes "user_free_big q s = Some r"
  shows "\<forall>s'. r = Inr s' \<longrightarrow> ctl s' = ctl s"
proof (rule user_free_big.raw_induct [OF _ assms], goal_cases)
  case (1 f q s r)
  show ?case
  proof (cases "q = 0")
    case True
    with 1(2) show ?thesis by auto
  next
    case False
    show ?thesis
    proof (intro allI impI)
      fix s' assume r: "r = Inr s'"
      with False 1(2) obtain s1 where a: "free_page_by_va (va_of (mem s) q) s = Inr s1"
        and b: "f (next_of (mem s) q) (delete_page_info q s1) = Some r"
        by (auto simp: Let_def split: sum.splits)
      from 1(1) [OF b] r have "ctl s' = ctl s1" by simp
      with free_page_by_va_ctl [OF a] show "ctl s' = ctl s" by simp
    qed
  qed
qed

lemma user_free_pages_ctl:
  assumes "user_free_pages va p s = Some r"
  shows "\<forall>s'. r = Inr s' \<longrightarrow> ctl s' = ctl s"
proof (rule user_free_pages.raw_induct [OF _ assms], goal_cases)
  case (1 f va p s r)
  show ?case
  proof (cases "p = 0")
    case True
    with 1(2) show ?thesis by auto
  next
    case False
    show ?thesis
    proof (cases "next_of (mem s) p = 0 \<and> va_of (mem s) p = va")
      case True
      show ?thesis
      proof (intro allI impI)
        fix s' assume r: "r = Inr s'"
        with True False 1(2) obtain s1 where a: "user_free_big p s = Some (Inr s1)"
          and b: "f va (suc_of (mem s1) p) s1 = Some r"
          by (auto simp: bind_outcome_def split: option.splits sum.splits)
        from 1(1) [OF b] r user_free_big_ctl [OF a] show "ctl s' = ctl s" by simp
      qed
    next
      case c: False
      with False 1(2) have b: "f va (suc_of (mem s) p) s = Some r" by auto
      from 1(1) [OF b] show ?thesis .
    qed
  qed
qed

lemma user_free_ctl:
  assumes "user_free va s = Some (Inr s')"
  shows "ctl s' = ctl s"
proof -
  from assms obtain p where
    c: "bind_outcome (if p \<noteq> 0 then Some (user_free_small p s) else Some (Inr s))
         (\<lambda>s1. user_free_pages va (suc_of (mem s1) (valid_page_info_head s1)) s1) = Some (Inr s')"
    by (auto simp: user_free_def Option.bind_eq_Some_conv)
  then obtain s1 where
    a: "(if p \<noteq> 0 then user_free_small p s else Inr s) = Inr s1"
    and b: "user_free_pages va (suc_of (mem s1) (valid_page_info_head s1)) s1 = Some (Inr s')"
    by (cases "p = 0") (auto simp: bind_outcome_def split: sum.splits)
  from a have "ctl s1 = ctl s" by (auto split: if_splits dest: user_free_small_ctl)
  with user_free_pages_ctl [OF b] show ?thesis by simp
qed


text \<open>
  The invariant of the bump cursor: it never passes MAXVA, every page address printed by
  \<^verbatim>\<open>alloc_page_with_vm\<close> lies below it, and the printed addresses increase strictly.
\<close>

definition cursor_inv :: "kstate \<Rightarrow> bool" where
  "cursor_inv s \<longleftrightarrow>
     g_ufree_page s \<le> MAXVA \<and>
     (\<forall>va \<in> snd ` set (console s). va < g_ufree_page s) \<and>
     sorted_wrt (<) (map snd (console s))"

definition cursor_step :: "kstate \<Rightarrow> kstate \<Rightarrow> bool" where
  "cursor_step s s' \<longleftrightarrow>
     (cursor_inv s \<longrightarrow>
        g_ufree_page s \<le> g_ufree_page s' \<and> cursor_inv s' \<and>
        (\<exists>new. console s' = console s @ new))"

lemma cursor_step_refl [simp]: "cursor_step s s" by (simp add: cursor_step_def)

lemma cursor_step_trans: "cursor_step s t \<Longrightarrow> cursor_step t u \<Longrightarrow> cursor_step s u"
  by (auto simp: cursor_step_def)

lemma cursor_step_ctl: "ctl s' = ctl s \<Longrightarrow> cursor_step s s'"
  by (simp add: cursor_step_def cursor_inv_def ctl_def)

lemma cursor_step_ctl_l: "ctl t = ctl s \<Longrightarrow> cursor_step t u \<Longrightarrow> cursor_step s u"
  by (simp add: cursor_step_def cursor_inv_def ctl_def)

lemma cursor_step_ctl_r: "ctl u = ctl t \<Longrightarrow> cursor_step s t \<Longrightarrow> cursor_step s u"
  by (simp add: cursor_step_def cursor_inv_def ctl_def)

lemma roundup_bounds:
  assumes "g \<le> MAXVA"
  shows "g \<le> ROUNDDOWN (g + PGSIZE - 1) PGSIZE" and "ROUNDDOWN (g + PGSIZE - 1) PGSIZE \<le> MAXVA"
proof -
  from assms have g: "unat g \<le> 2 ^ 38" by (simp only: word_le_nat_alt MAXVA_unat)
  define k where "k = (unat g + 4095) div 4096"
  have r: "unat (ROUNDDOWN (g + PGSIZE - 1) PGSIZE) = k * 4096"
    by (simp only: unat_roundup [OF g] k_def)
  have e: "k * 4096 + (unat g + 4095) mod 4096 = unat g + 4095"
    unfolding k_def by (rule div_mult_mod_eq)
  have m: "(unat g + 4095) mod 4096 < 4096" by (rule mod_less_divisor) simp
  from e m have "unat g \<le> k * 4096" by linarith
  then show "g \<le> ROUNDDOWN (g + PGSIZE - 1) PGSIZE"
    by (simp only: word_le_nat_alt r)
  have "k \<le> (2 ^ 38 + 4095) div 4096" unfolding k_def using g by (intro div_le_mono) simp
  then have "k \<le> 2 ^ 26" by simp
  then have "k * 4096 \<le> 2 ^ 26 * 4096" by (rule mult_le_mono1)
  then have "k * 4096 \<le> 2 ^ 38" by simp
  then show "ROUNDDOWN (g + PGSIZE - 1) PGSIZE \<le> MAXVA"
    by (simp only: word_le_nat_alt r MAXVA_unat)
qed

lemma next_page_bounds:
  assumes r: "r = ROUNDDOWN x PGSIZE" and b: "r < MAXVA"
  shows "r < r + PGSIZE" and "r + PGSIZE \<le> MAXVA"
proof -
  define k where "k = unat x div 4096"
  have u: "unat r = k * 4096" by (simp add: r unat_ROUNDDOWN k_def)
  from b have l: "unat r < 2 ^ 38" by (simp add: word_less_nat_alt MAXVA_unat)
  have "unat (r + PGSIZE) = (unat r + 4096) mod 2 ^ 64" by (simp add: unat_word_ariths PGSIZE_def)
  with l have s: "unat (r + PGSIZE) = unat r + 4096" by simp
  then show "r < r + PGSIZE" by (simp add: word_less_nat_alt)
  from u l have "k * 4096 < 2 ^ 26 * 4096" by simp
  then have "k < 2 ^ 26" by (rule mult_less_cancel2 [THEN iffD1, THEN conjunct2])
  then have "k + 1 \<le> 2 ^ 26" by simp
  then have "(k + 1) * 4096 \<le> 2 ^ 26 * 4096" by (rule mult_le_mono1)
  with u have "unat r + 4096 \<le> 2 ^ 38" by simp
  with s show "r + PGSIZE \<le> MAXVA" by (simp add: word_le_nat_alt MAXVA_unat)
qed


lemma alloc_page_with_vm_cursor:
  assumes ok: "alloc_page_with_vm perm s = Inr (va, s')"
  shows "cursor_step s s'"
proof -
  obtain pa s1 where a: "alloc_page s = (pa, s1)" by (cases "alloc_page s")
  define r where "r = ROUNDDOWN (g_ufree_page s1 + PGSIZE - 1) PGSIZE"
  define s2 where "s2 = s1\<lparr>g_ufree_page := r\<rparr>"
  from ok a obtain pte s3 where w: "page_walk (current_pagetable s2) r 1 s2 = Inr (pte, s3)"
    and s': "s' = s3\<lparr>mem := (mem s3)(pte := PA2PTE pa OR scast perm OR PTE_V),
                    g_ufree_page := g_ufree_page s3 + PGSIZE,
                    console := console s3 @ [(pa, g_ufree_page s3)]\<rparr>"
    by (auto simp: alloc_page_with_vm_def Let_def r_def s2_def split: sum.splits if_splits)
  from alloc_page_ctl [OF a] have c1: "ctl s1 = ctl s" .
  from page_walk_ctl [OF w] have c3: "ctl s3 = ctl s2" .
  from page_walk_Inr_below [OF w] have below: "r < MAXVA" .
  have g1: "g_ufree_page s1 = g_ufree_page s" and k1: "console s1 = console s"
    using c1 by (simp_all add: ctl_def)
  have g3: "g_ufree_page s3 = r" and k3: "console s3 = console s"
    using c3 k1 by (simp_all add: ctl_def s2_def)
  show ?thesis
    unfolding cursor_step_def
  proof (intro impI)
    assume inv: "cursor_inv s"
    then have le: "g_ufree_page s \<le> MAXVA" by (simp add: cursor_inv_def)
    from roundup_bounds(1) [OF le] have gr: "g_ufree_page s \<le> r" by (simp add: r_def g1)
    from next_page_bounds [OF r_def below] have rn: "r < r + PGSIZE" and nm: "r + PGSIZE \<le> MAXVA" .
    have old: "\<forall>v \<in> snd ` set (console s). v < r"
      using inv gr by (auto simp: cursor_inv_def)
    have "cursor_inv s'"
      using inv old rn nm
      by (auto simp: cursor_inv_def s' g3 k3 sorted_wrt_append)
    moreover have "g_ufree_page s \<le> g_ufree_page s'" using gr rn by (simp add: s' g3)
    moreover have "\<exists>new. console s' = console s @ new" by (simp add: s' k3)
    ultimately show "g_ufree_page s \<le> g_ufree_page s' \<and> cursor_inv s' \<and> (\<exists>new. console s' = console s @ new)"
      by simp
  qed
qed

lemma get_element_ctl:
  assumes "get_element valid emp sz s = Some (Inr (p, s'))"
  shows "ctl s' = ctl s"
proof -
  from assms obtain s2 where
    a: "(if suc_of (mem s) emp = 0 then
          (case alloc_page s of (pa, s1) \<Rightarrow>
             if pa = 0 then Some (Inl Fault)
             else
               (case get_element_carve emp pa sz 0 (memset0 pa 8 (mem s1)) of
                  None \<Rightarrow> None
                | Some m \<Rightarrow> Some (Inr (s1\<lparr>mem := m\<rparr>))))
        else Some (Inr s)) = Some (Inr s2)"
    and b: "s' = s2\<lparr>mem := bid_linked_list_del (suc_of (mem s2) emp) (mem s2)\<rparr>"
    by (auto simp: get_element_def bind_outcome_def Let_def split: option.splits sum.splits if_splits)
  from a have "ctl s2 = ctl s"
    by (auto split: if_splits prod.splits option.splits dest: alloc_page_ctl)
  with b show ?thesis by simp
qed

lemma user_malloc_big_loop_cursor:
  "user_malloc_big_loop n lastp perm s = Some (Inr s') \<Longrightarrow> cursor_step s s'"
proof (induction n arbitrary: lastp s)
  case 0
  then show ?case by simp
next
  case (Suc n)
  from Suc.prems obtain now s1 va s3 where
    g: "get_page_info s = Some (Inr (now, s1))"
    and a: "alloc_page_with_vm perm (if lastp \<noteq> 0 then s1\<lparr>mem := set_next lastp now (mem s1)\<rparr> else s1) = Inr (va, s3)"
    and l: "user_malloc_big_loop n now perm (s3\<lparr>mem := set_va now va (mem s3)\<rparr>) = Some (Inr s')"
    by (auto simp: bind_outcome_def Let_def split: option.splits sum.splits prod.splits)
  from g have c1: "ctl s1 = ctl s" by (auto simp: get_page_info_def dest: get_element_ctl)
  have "cursor_step s1 s3"
    by (rule cursor_step_ctl_l [OF _ alloc_page_with_vm_cursor [OF a]]) simp
  then have "cursor_step s s3" by (rule cursor_step_ctl_l [OF c1])
  moreover have "cursor_step s3 s'"
    by (rule cursor_step_ctl_l [OF _ Suc.IH [OF l]]) simp
  ultimately show ?case by (rule cursor_step_trans)
qed


lemma user_malloc_small_fresh_cursor:
  assumes "user_malloc_small_fresh perm s = Some (Inr (found, s'))"
  shows "cursor_step s s'"
proof -
  from assms obtain f s1 va s3 where
    g: "get_segment_info s = Some (Inr (f, s1))"
    and a: "alloc_page_with_vm perm (s1\<lparr>mem := bid_linked_list_app (valid_segment_info_head s1) f (mem s1)\<rparr>) = Inr (va, s3)"
    and e: "s' = s3\<lparr>mem := set_occupy f 0 (set_size f (ucast PGSIZE) (set_va f va (mem s3)))\<rparr>"
    by (auto simp: user_malloc_small_fresh_def bind_outcome_def Let_def
        split: option.splits sum.splits prod.splits)
  from g have c1: "ctl s1 = ctl s" by (auto simp: get_segment_info_def dest: get_element_ctl)
  have "cursor_step s1 s3"
    by (rule cursor_step_ctl_l [OF _ alloc_page_with_vm_cursor [OF a]]) simp
  then have "cursor_step s s3" by (rule cursor_step_ctl_l [OF c1])
  then show ?thesis by (rule cursor_step_ctl_r [rotated]) (simp add: e)
qed

lemma user_malloc_small_split_ctl:
  assumes "user_malloc_small_split found sz s = Some (Inr s')"
  shows "ctl s' = ctl s"
  using assms
  by (auto simp: user_malloc_small_split_def bind_outcome_def Let_def get_segment_info_def
      split: if_splits option.splits sum.splits prod.splits dest: get_element_ctl)

lemma user_malloc_small_cursor:
  assumes "user_malloc_small sz perm s = Some (Inr (va, s'))"
  shows "cursor_step s s'"
proof -
  from assms obtain found0 where
    c: "bind_outcome
         (if found0 = 0 then user_malloc_small_fresh perm s else Some (Inr (found0, s)))
         (\<lambda>(found, s1).
            let s2 = s1\<lparr>mem := set_occupy found 1 (mem s1)\<rparr> in
            bind_outcome (user_malloc_small_split found sz s2)
              (\<lambda>s3. let s4 = s3\<lparr>mem := set_size found (ucast sz) (mem s3)\<rparr>
                     in Some (Inr (va_of (mem s4) found, s4)))) = Some (Inr (va, s'))"
    by (auto simp: user_malloc_small_def Option.bind_eq_Some_conv)
  then obtain found s1 s3 where
    a: "(if found0 = 0 then user_malloc_small_fresh perm s else Some (Inr (found0, s))) = Some (Inr (found, s1))"
    and b: "user_malloc_small_split found sz (s1\<lparr>mem := set_occupy found 1 (mem s1)\<rparr>) = Some (Inr s3)"
    and e: "s' = s3\<lparr>mem := set_size found (ucast sz) (mem s3)\<rparr>"
    by (auto simp: bind_outcome_def Let_def split: option.splits sum.splits prod.splits)
  from a have 1: "cursor_step s s1"
    by (auto split: if_splits dest: user_malloc_small_fresh_cursor)
  from user_malloc_small_split_ctl [OF b] have "ctl s' = ctl s1" by (simp add: e)
  then show ?thesis by (rule cursor_step_ctl_r [OF _ 1])
qed

lemma user_malloc_big_cursor:
  assumes "user_malloc_big sz perm s = Some (Inr (va, s'))"
  shows "cursor_step s s'"
proof -
  define s1 where "s1 = s\<lparr>g_ufree_page := ROUNDDOWN (g_ufree_page s + PGSIZE - 1) PGSIZE\<rparr>"
  from assms have l: "user_malloc_big_loop (nat (sint (pagenum_of sz))) 0 perm s1 = Some (Inr s')"
    by (auto simp: user_malloc_big_def bind_outcome_def Let_def s1_def split: option.splits sum.splits)
  have "cursor_step s s1"
    unfolding cursor_step_def
  proof (intro impI)
    assume inv: "cursor_inv s"
    then have le: "g_ufree_page s \<le> MAXVA" by (simp add: cursor_inv_def)
    from roundup_bounds [OF le] inv
    show "g_ufree_page s \<le> g_ufree_page s1 \<and> cursor_inv s1 \<and> (\<exists>new. console s1 = console s @ new)"
      by (auto simp: s1_def cursor_inv_def)
  qed
  then show ?thesis using user_malloc_big_loop_cursor [OF l] by (rule cursor_step_trans)
qed

lemma user_malloc_cursor:
  "user_malloc sz perm s = Some (Inr (va, s')) \<Longrightarrow> cursor_step s s'"
  by (auto simp: user_malloc_def split: if_splits intro: user_malloc_big_cursor user_malloc_small_cursor)

lemma user_free_cursor: "user_free va s = Some (Inr s') \<Longrightarrow> cursor_step s s'"
  by (rule cursor_step_ctl) (rule user_free_ctl)


subsection \<open>Unmapping\<close>

lemma PTE2PA_clear_V: "PTE2PA (x AND NOT PTE_V) = PTE2PA x"
proof -
  have m: "(18014398509481983 :: u64) = mask 54" by (simp add: mask_eq_exp_minus_1)
  have "drop_bit 10 (x AND NOT 1) = drop_bit 10 x"
  proof (rule bit_word_eqI)
    fix n assume "n < LENGTH(64)"
    show "bit (drop_bit 10 (x AND NOT 1)) n = bit (drop_bit 10 x) n"
      using bit_imp_le_length [of x "10 + n"]
      by (auto simp: bit_simps m)
  qed
  then show ?thesis by (simp only: PTE2PA_def PTE_V_def)
qed

lemma clear_V_invalid: "(x AND NOT PTE_V) AND PTE_V = 0"
  by (simp add: word_bw_assocs)

lemma memset0_apply: "memset0 p n m a = (if a - p < n then 0 else m a)"
  by (simp add: memset0_def)

lemmas pt_eval = page_walk_def page_walk_level_def Let_def PX_def PGSHIFT_def MAXVA_def PTE_V_def
  PA2PTE_def PTE2PA_def alloc_page_def memset0_apply PGSIZE_def prot_to_type_def PROT_READ_def
  PROT_WRITE_def PROT_EXEC_def PTE_R_def PTE_W_def PTE_X_def PTE_A_def PTE_D_def PTE_U_def
  ROUNDDOWN_def


subsection \<open>Carving a pool page\<close>

text \<open>
  The k-th slot of the page at \<open>pa\<close> carved into elements of \<open>sz\<close> bytes, and the
  memory after \<^verbatim>\<open>get_element\<close> has carved the first \<open>k\<close> slots of a page whose link
  cells were clear: the head's \<open>suc\<close> is the last slot carved, every slot's \<open>pre\<close> is
  the slot carved after it (the head for the last), every slot's \<open>suc\<close> the slot carved
  before it (NULL for the first), every other cell is as it was.
\<close>

definition slot :: "addr \<Rightarrow> nat \<Rightarrow> nat \<Rightarrow> addr" where
  "slot pa sz k = pa + of_nat (k * sz)"

definition carved :: "addr \<Rightarrow> addr \<Rightarrow> nat \<Rightarrow> nat \<Rightarrow> memory \<Rightarrow> memory" where
  "carved emp pa sz k m =
     (\<lambda>a. if k = 0 then m a
          else if a = emp + 8 then slot pa sz (k - 1)
          else
            (let j = unat (a - pa) div sz; r = unat (a - pa) mod sz in
             if j < k \<and> r = 0 then (if j = k - 1 then emp else a + of_nat sz)
             else if j < k \<and> r = 8 then (if j = 0 then 0 else a - of_nat sz - 8)
             else m a))"

text \<open>
  What the carving loop relies on: the element holds both links and fits the page, the
  page is not null and does not wrap, the head's \<open>suc\<close> cell is outside the page and is
  NULL, and the link cells of the page are clear.
\<close>

definition carve_ok :: "addr \<Rightarrow> addr \<Rightarrow> nat \<Rightarrow> memory \<Rightarrow> bool" where
  "carve_ok emp pa sz m \<longleftrightarrow>
     16 \<le> sz \<and> sz \<le> 4096 \<and> pa \<noteq> 0 \<and> unat pa + 4096 \<le> 2 ^ 64 \<and>
     4096 \<le> unat (emp + 8 - pa) \<and> m (emp + 8) = 0 \<and>
     (\<forall>a. unat (a - pa) < 4096 \<longrightarrow> unat (a - pa) mod sz \<in> {0, 8} \<longrightarrow> m a = 0)"

lemma unat_of_nat_eq: "n < 2 ^ 64 \<Longrightarrow> unat (of_nat n :: addr) = n"
  by (simp add: unat_of_nat)

lemma off_unat: "n < 2 ^ 64 \<Longrightarrow> unat ((pa :: addr) + of_nat n - pa) = n"
  by (simp add: unat_of_nat_eq)

lemma slot_off: "k * sz < 2 ^ 64 \<Longrightarrow> unat (slot pa sz k - pa) = k * sz"
  by (simp only: slot_def add_diff_cancel_left' unat_of_nat_eq)

lemma slot8_off: "k * sz + 8 < 2 ^ 64 \<Longrightarrow> unat (slot pa sz k + 8 - pa) = k * sz + 8"
proof -
  assume a: "k * sz + 8 < 2 ^ 64"
  have "slot pa sz k + 8 - pa = of_nat (k * sz + 8)"
    by (simp only: slot_def of_nat_add of_nat_numeral) simp
  with a show ?thesis by (simp only: unat_of_nat_eq) 
qed

lemma addr_of_off: "(a :: addr) = pa + of_nat (unat (a - pa))"
  by simp

lemma slot_nonzero:
  assumes "pa \<noteq> 0" "unat pa + 4096 \<le> 2 ^ 64" "n < 4096"
  shows "pa + of_nat n \<noteq> (0 :: addr)"
proof
  assume z: "pa + of_nat n = 0"
  have "unat (pa + of_nat n) = (unat pa + n) mod 2 ^ 64"
    using assms(3) by (simp add: unat_word_ariths unat_of_nat_eq)
  also have "\<dots> = unat pa + n" using assms by simp
  finally have "unat pa + n = 0" using z by simp
  with assms(1) show False by (simp add: unat_0_iff)
qed


lemma carved_other:
  assumes sz: "16 \<le> sz"
    and a1: "a \<noteq> emp + 8"
    and o1: "unat (a - pa) \<noteq> k * sz" and o2: "unat (a - pa) \<noteq> k * sz + 8"
    and o3: "0 < k \<Longrightarrow> unat (a - pa) \<noteq> (k - 1) * sz"
  shows "carved emp pa sz (Suc k) m a = carved emp pa sz k m a"
proof -
  define off where "off = unat (a - pa)"
  define q where "q = off div sz"
  define r where "r = off mod sz"
  have e: "off = q * sz + r" by (simp add: q_def r_def)
  have c0: "r = 0 \<Longrightarrow> q \<noteq> k" using o1 e by (auto simp: off_def)
  have c8: "r = 8 \<Longrightarrow> q \<noteq> k" using o2 e by (auto simp: off_def)
  have c1: "r = 0 \<Longrightarrow> 0 < k \<Longrightarrow> q \<noteq> k - 1" using o3 e by (auto simp: off_def)
  show ?thesis
    using a1 c0 c8 c1
    by (auto simp: carved_def Let_def off_def [symmetric] r_def [symmetric] q_def [symmetric]
          less_Suc_eq)
qed


lemma div_mod_slot:
  assumes "16 \<le> (sz :: nat)"
  shows "k * sz div sz = k" "k * sz mod sz = 0" "(k * sz + 8) div sz = k" "(k * sz + 8) mod sz = 8"
    "8 mod sz = 8" "8 div sz = 0"
  using assms by simp_all

lemma delete_element_carved:
  assumes ok: "carve_ok emp pa sz m" and k: "Suc k * sz \<le> 4096"
  shows "delete_element emp (slot pa sz k) (carved emp pa sz k m) = carved emp pa sz (Suc k) m"
proof -
  let ?p = "slot pa sz k"
  let ?M = "carved emp pa sz k m"
  from ok have sz: "16 \<le> sz" and pa0: "pa \<noteq> 0" and nw: "unat pa + 4096 \<le> 2 ^ 64"
    and out: "4096 \<le> unat (emp + 8 - pa)" and e0: "m (emp + 8) = 0"
    and clean: "\<And>a. unat (a - pa) < 4096 \<Longrightarrow> unat (a - pa) mod sz \<in> {0, 8} \<Longrightarrow> m a = 0"
    by (auto simp: carve_ok_def)
  from k sz have kb: "k * sz + 8 < 4096" by simp
  then have kb': "k * sz < 4096" by simp
  have op: "unat (?p - pa) = k * sz" using kb' by (intro slot_off) simp
  have op8: "unat (?p + 8 - pa) = k * sz + 8" using kb by (intro slot8_off) simp
  have pne: "?p \<noteq> emp + 8" using out op kb' by auto
  have p8ne: "?p + 8 \<noteq> emp + 8" using out op8 kb by auto
  have pp8: "?p \<noteq> ?p + 8" by simp
  have pnz: "?p \<noteq> 0" unfolding slot_def using pa0 nw kb' by (rule slot_nonzero)
  have mp: "m ?p = 0"
    using clean [of ?p] kb' by (simp add: op div_mod_slot [OF sz])
  have mp8: "m (?p + 8) = 0"
    using clean [of "?p + 8"] kb by (simp add: op8 div_mod_slot [OF sz])
  have Mp: "?M ?p = 0"
    using pne mp by (cases "k = 0") (simp_all add: carved_def Let_def op div_mod_slot [OF sz])
  have Mp8: "?M (?p + 8) = 0"
    using p8ne mp8 by (cases "k = 0") (simp_all add: carved_def Let_def op8 div_mod_slot [OF sz])
  have Me: "?M (emp + 8) = (if k = 0 then 0 else slot pa sz (k - 1))"
    by (simp add: carved_def e0)
  have del: "bid_linked_list_del ?p ?M = ?M"
    by (simp add: bid_linked_list_del_def Let_def pre_of_def suc_of_def Mp Mp8)
  show ?thesis
  proof (cases "k = 0")
    case True
    have Me0: "?M (emp + 8) = 0" using True by (simp add: carved_def e0)
    have r: "delete_element emp ?p ?M = ?M(?p := emp, ?p + 8 := 0, emp + 8 := ?p)"
      using pne p8ne
      by (simp add: delete_element_def del bid_linked_list_app_def Let_def pre_of_def suc_of_def
          set_pre_def set_suc_def Me0)
    show ?thesis
    proof (rule ext)
      fix a
      consider "a = emp + 8" | "a = ?p" | "a = ?p + 8"
        | "a \<noteq> emp + 8" "a \<noteq> ?p" "a \<noteq> ?p + 8" by blast
      then show "delete_element emp ?p ?M a = carved emp pa sz (Suc k) m a"
      proof cases
        case 1
        then show ?thesis unfolding r by (simp add: carved_def)
      next
        case 2
        then show ?thesis using pne p8ne op
          unfolding r by (simp add: carved_def Let_def div_mod_slot [OF sz])
      next
        case 3
        then show ?thesis using pne p8ne True op8
          unfolding r by (simp add: carved_def Let_def div_mod_slot [OF sz])
      next
        case 4
        have "unat (a - pa) \<noteq> k * sz"
          using 4(2) op by (metis addr_of_off)
        moreover have "unat (a - pa) \<noteq> k * sz + 8"
          using 4(3) op8 by (metis addr_of_off)
        ultimately have "carved emp pa sz (Suc k) m a = ?M a"
          using True 4(1) by (intro carved_other [OF sz]) simp_all
        then show ?thesis unfolding r using 4 by simp
      qed
    qed
  next
    case False
    let ?q = "slot pa sz (k - 1)"
    from False kb' have qb: "(k - 1) * sz < 4096"
      by (metis (no_types) diff_le_self le_less_trans mult_le_mono1)
    have oq: "unat (?q - pa) = (k - 1) * sz" using qb by (intro slot_off) simp
    have qnz: "?q \<noteq> 0" unfolding slot_def using pa0 nw qb by (rule slot_nonzero)
    have lt: "(k - 1) * sz < k * sz" using False sz by simp
    have qne: "?q \<noteq> emp + 8" using out oq qb by auto
    have qp: "?q \<noteq> ?p"
    proof
      assume "?q = ?p"
      then have "unat (?q - pa) = unat (?p - pa)" by simp
      with oq op lt show False by linarith
    qed
    have qp8: "?q \<noteq> ?p + 8"
    proof
      assume "?q = ?p + 8"
      then have "unat (?q - pa) = unat (?p + 8 - pa)" by simp
      with oq op8 lt show False by linarith
    qed
    have Me1: "?M (emp + 8) = ?q" using False by (simp add: carved_def)
    have r: "delete_element emp ?p ?M = ?M(?p := emp, ?p + 8 := ?q, ?q := ?p, emp + 8 := ?p)"
      using pne p8ne qnz
      by (simp add: delete_element_def del bid_linked_list_app_def Let_def pre_of_def suc_of_def
          set_pre_def set_suc_def Me1)
    have qs: "?q + of_nat sz = ?p"
    proof -
      have "(k - 1) * sz + sz = k * sz" using False by (simp add: algebra_simps mult_eq_if)
      then have "of_nat ((k - 1) * sz) + of_nat sz = (of_nat (k * sz) :: addr)"
        by (metis of_nat_add)
      then show ?thesis by (simp only: slot_def add.assoc)
    qed
    show ?thesis
    proof (rule ext)
      fix a
      consider "a = emp + 8" | "a = ?p" | "a = ?p + 8" | "a = ?q"
        | "a \<noteq> emp + 8" "a \<noteq> ?p" "a \<noteq> ?p + 8" "a \<noteq> ?q" by blast
      then show "delete_element emp ?p ?M a = carved emp pa sz (Suc k) m a"
      proof cases
        case 1
        then show ?thesis unfolding r by (simp add: carved_def)
      next
        case 2
        then show ?thesis using pne p8ne qp op
          unfolding r by (simp add: carved_def Let_def div_mod_slot [OF sz])
      next
        case 3
        have "?p + 8 - of_nat sz - 8 = ?q" using qs by (simp add: algebra_simps)
        then show ?thesis using 3 pne p8ne qp8 False op8
          unfolding r by (simp add: carved_def Let_def div_mod_slot [OF sz])
      next
        case 4
        have "k - Suc 0 \<noteq> k" "k - Suc 0 < Suc k" using False by simp_all
        with 4 show ?thesis using qne qp qp8 qs oq
          unfolding r by (simp add: carved_def Let_def div_mod_slot [OF sz])
      next
        case 5
        have "unat (a - pa) \<noteq> k * sz"
          using 5(2) op by (metis addr_of_off)
        moreover have "unat (a - pa) \<noteq> k * sz + 8"
          using 5(3) op8 by (metis addr_of_off)
        moreover have "unat (a - pa) \<noteq> (k - 1) * sz"
          using 5(4) oq by (metis addr_of_off)
        ultimately have "carved emp pa sz (Suc k) m a = ?M a"
          using 5(1) by (intro carved_other [OF sz]) simp_all
        then show ?thesis unfolding r using 5 by simp
      qed
    qed
  qed
qed


lemma uint_PGSIZE: "uint PGSIZE = 4096" by (simp add: PGSIZE_def)

lemma carve_guard: "int (k * sz) + int sz \<le> uint PGSIZE \<longleftrightarrow> Suc k * sz \<le> 4096"
proof -
  have "int (k * sz) + int sz = int (Suc k * sz)" by (simp add: algebra_simps)
  moreover have "int (Suc k * sz) \<le> int 4096 \<longleftrightarrow> Suc k * sz \<le> 4096" by (rule of_nat_le_iff)
  ultimately show ?thesis by (simp only: uint_PGSIZE of_nat_numeral)
qed

lemma get_element_carve_carved:
  assumes ok: "carve_ok emp pa sz m" and k: "k \<le> 4096 div sz"
  shows "get_element_carve emp pa (int sz) (int (k * sz)) (carved emp pa sz k m)
         = Some (carved emp pa sz (4096 div sz) m)"
  using k
proof (induction "4096 div sz - k" arbitrary: k)
  case 0
  then have e: "k = 4096 div sz" by simp
  from ok have sz: "0 < sz" by (simp add: carve_ok_def)
  have "Suc (4096 div sz) * sz \<le> 4096 \<longleftrightarrow> Suc (4096 div sz) \<le> 4096 div sz"
    using sz by (rule less_eq_div_iff_mult_less_eq [symmetric])
  then have "\<not> Suc (4096 div sz) * sz \<le> 4096" by simp
  then have g: "\<not> int (4096 div sz * sz) + int sz \<le> uint PGSIZE"
    unfolding carve_guard by simp
  show ?case
    unfolding e by (subst get_element_carve.simps) (simp only: g if_False)
next
  case (Suc d)
  then have lt: "k < 4096 div sz" by simp
  from ok have sz: "0 < sz" by (simp add: carve_ok_def)
  from lt have s: "Suc k \<le> 4096 div sz" by simp
  have "Suc k * sz \<le> 4096 \<longleftrightarrow> Suc k \<le> 4096 div sz"
    using sz by (rule less_eq_div_iff_mult_less_eq [symmetric])
  with s have b: "Suc k * sz \<le> 4096" by simp
  then have c: "int (k * sz) + int sz \<le> uint PGSIZE" by (simp only: carve_guard)
  have p: "pa + of_int (int (k * sz)) = slot pa sz k" by (simp only: slot_def of_int_of_nat_eq)
  have i: "int (k * sz) + int sz = int (Suc k * sz)" by (simp add: algebra_simps)
  from c have c': "int (Suc k * sz) \<le> uint PGSIZE" by (simp only: i)
  from Suc(2) have d: "d = 4096 div sz - Suc k" by simp
  show ?case
    by (subst get_element_carve.simps)
      (simp only: c c' if_True p i delete_element_carved [OF ok b] Suc(1) [OF d s])
qed


lemma carved_0: "carved emp pa sz 0 m = m"
  by (rule ext) (simp add: carved_def)

lemma get_element_empty:
  assumes e: "suc_of (mem s) emp = 0" and f: "free_mem s = pa # rest"
    and ok: "carve_ok emp pa sz (memset0 pa 8 (mem s))"
  shows "get_element valid emp (int sz) s =
         Some (Inr (slot pa sz (4096 div sz - 1),
           s\<lparr>free_mem := rest,
             mem := bid_linked_list_del (slot pa sz (4096 div sz - 1))
                      (carved emp pa sz (4096 div sz) (memset0 pa 8 (mem s)))\<rparr>))"
proof -
  let ?n = "4096 div sz"
  let ?M = "carved emp pa sz ?n (memset0 pa 8 (mem s))"
  from ok have sz: "16 \<le> sz" and sz': "sz \<le> 4096" and pa0: "pa \<noteq> 0"
    and nw: "unat pa + 4096 \<le> 2 ^ 64"
    by (auto simp: carve_ok_def)
  have n: "0 < ?n" using sz sz' by (simp add: div_greater_zero_iff)
  have "(?n - 1) * sz < ?n * sz" using n sz by simp
  also have "?n * sz \<le> 4096" by simp
  finally have b: "(?n - 1) * sz < 4096" .
  have nz: "slot pa sz (?n - 1) \<noteq> 0" unfolding slot_def using pa0 nw b by (rule slot_nonzero)
  have a: "alloc_page s = (pa, s\<lparr>free_mem := rest\<rparr>)" by (simp add: alloc_page_def f)
  have c: "get_element_carve emp pa (int sz) 0 (memset0 pa 8 (mem s)) = Some ?M"
    using get_element_carve_carved [OF ok, of 0] by (simp add: carved_0)
  have h: "suc_of ?M emp = slot pa sz (?n - 1)" using n by (simp add: suc_of_def carved_def)
  show ?thesis
    using h nz by (simp add: get_element_def e a pa0 c bind_outcome_def Let_def)
qed

lemma carved_apply:
  "carved emp pa sz k m a =
     (if k = 0 then m a
      else if a = emp + 8 then pa + of_nat ((k - 1) * sz)
      else if unat (a - pa) div sz < k \<and> unat (a - pa) mod sz = 0
           then (if unat (a - pa) div sz = k - 1 then emp else a + of_nat sz)
      else if unat (a - pa) div sz < k \<and> unat (a - pa) mod sz = 8
           then (if unat (a - pa) div sz = 0 then 0 else a - of_nat sz - 8)
      else m a)"
  by (simp add: carved_def slot_def Let_def)

lemma get_element_nonempty:
  "suc_of (mem s) emp \<noteq> 0 \<Longrightarrow>
   get_element valid emp sz s =
     Some (Inr (suc_of (mem s) emp, s\<lparr>mem := bid_linked_list_del (suc_of (mem s) emp) (mem s)\<rparr>))"
  by (simp add: get_element_def bind_outcome_def Let_def)


text \<open>The nodes met from \<open>p\<close> along \<open>suc\<close> up to NULL.\<close>

fun node_list :: "memory \<Rightarrow> addr \<Rightarrow> addr list \<Rightarrow> bool" where
  "node_list m p [] \<longleftrightarrow> p = 0"
| "node_list m p (q # qs) \<longleftrightarrow> p = q \<and> p \<noteq> 0 \<and> node_list m (suc_of m p) qs"

lemma node_list_frame:
  "(\<And>q. q \<in> set ps \<Longrightarrow> m' (q + 8) = m (q + 8)) \<Longrightarrow> node_list m' p ps = node_list m p ps"
  by (induction ps arbitrary: p) (auto simp: suc_of_def)

lemma carved_suc:
  assumes ok: "carve_ok emp pa sz m" and j: "j < k" and k: "k * sz \<le> 4096"
  shows "carved emp pa sz k m (slot pa sz j + 8) = (if j = 0 then 0 else slot pa sz (j - 1))"
proof -
  from ok have sz: "16 \<le> sz" and out: "4096 \<le> unat (emp + 8 - pa)" by (auto simp: carve_ok_def)
  from j have "Suc j * sz \<le> k * sz" by (intro mult_le_mono1) simp
  with k sz have b: "j * sz + 8 < 4096" by simp
  have o: "unat (slot pa sz j + 8 - pa) = j * sz + 8" using b by (intro slot8_off) simp
  have ne: "slot pa sz j + 8 \<noteq> emp + 8" using out o b by auto
  have s: "0 < j \<Longrightarrow> slot pa sz j + 8 - of_nat sz - 8 = slot pa sz (j - 1)"
  proof -
    assume "0 < j"
    then have "(j - 1) * sz + sz = j * sz" by (simp add: algebra_simps mult_eq_if)
    then have "of_nat ((j - 1) * sz) + of_nat sz = (of_nat (j * sz) :: addr)"
      by (metis of_nat_add)
    then show ?thesis by (simp add: slot_def algebra_simps)
  qed
  show ?thesis
    using j ne o s by (simp add: carved_def Let_def div_mod_slot [OF sz])
qed

lemma carved_node_list:
  assumes ok: "carve_ok emp pa sz m" and j: "j < k" and k: "k * sz \<le> 4096"
  shows "node_list (carved emp pa sz k m) (slot pa sz j) (map (slot pa sz) (rev [0..<Suc j]))"
  using j
proof (induction j)
  case 0
  from ok have pa0: "pa \<noteq> 0" by (simp add: carve_ok_def)
  from 0 show ?case using carved_suc [OF ok 0 k] pa0 by (simp add: suc_of_def slot_def)
next
  case (Suc j)
  from ok have sz: "16 \<le> sz" and pa0: "pa \<noteq> 0" and nw: "unat pa + 4096 \<le> 2 ^ 64"
    by (auto simp: carve_ok_def)
  from Suc.prems have "Suc (Suc j) * sz \<le> k * sz" by (intro mult_le_mono1) simp
  with k sz have b: "Suc j * sz < 4096" by simp
  have nz: "slot pa sz (Suc j) \<noteq> 0" unfolding slot_def using pa0 nw b by (rule slot_nonzero)
  from Suc.prems have "j < k" by simp
  from Suc.IH [OF this] carved_suc [OF ok Suc.prems k] nz
  show ?case by (simp add: suc_of_def)
qed


lemma carved_pre_last:
  assumes ok: "carve_ok emp pa sz m" and k: "Suc k * sz \<le> 4096"
  shows "carved emp pa sz (Suc k) m (slot pa sz k) = emp"
proof -
  from ok have sz: "16 \<le> sz" and out: "4096 \<le> unat (emp + 8 - pa)" by (auto simp: carve_ok_def)
  from k sz have b: "k * sz < 4096" by simp
  have o: "unat (slot pa sz k - pa) = k * sz" using b by (intro slot_off) simp
  have ne: "slot pa sz k \<noteq> emp + 8" using out o b by auto
  show ?thesis using ne o by (simp add: carved_def Let_def div_mod_slot [OF sz])
qed

lemma carved_payload:
  assumes ok: "carve_ok emp pa sz m"
    and a: "unat (a - pa) < 4096" "unat (a - pa) mod sz \<notin> {0, 8}"
  shows "carved emp pa sz k m a = m a"
proof -
  from ok have out: "4096 \<le> unat (emp + 8 - pa)" by (auto simp: carve_ok_def)
  have "a \<noteq> emp + 8" using out a(1) by auto
  then show ?thesis using a(2) by (simp add: carved_def Let_def)
qed

lemma pop_carved:
  assumes ok: "carve_ok emp pa sz m" and e: "emp \<noteq> 0" and k: "Suc k * sz \<le> 4096"
  shows "bid_linked_list_del (slot pa sz k) (carved emp pa sz (Suc k) m) =
          (if k = 0 then (carved emp pa sz (Suc k) m)(emp + 8 := 0)
           else (carved emp pa sz (Suc k) m)(emp + 8 := slot pa sz (k - 1), slot pa sz (k - 1) := emp))"
proof -
  let ?M = "carved emp pa sz (Suc k) m"
  let ?r = "slot pa sz k"
  from ok have sz: "16 \<le> sz" and pa0: "pa \<noteq> 0" and nw: "unat pa + 4096 \<le> 2 ^ 64"
    and out: "4096 \<le> unat (emp + 8 - pa)" by (auto simp: carve_ok_def)
  from k sz have b: "k * sz + 8 < 4096" by simp
  have o8: "unat (?r + 8 - pa) = k * sz + 8" using b by (intro slot8_off) simp
  have ne8: "?r + 8 \<noteq> emp + 8" using out o8 b by auto
  have o: "unat (?r - pa) = k * sz" using b by (intro slot_off) simp
  have ne: "?r \<noteq> emp + 8" using out o b by auto
  have pre: "?M ?r = emp" by (rule carved_pre_last [OF ok k])
  have suc: "?M (?r + 8) = (if k = 0 then 0 else slot pa sz (k - 1))"
    by (intro carved_suc [OF ok _ k]) simp
  show ?thesis
  proof (cases "k = 0")
    case True
    have "?M (?r + 8) = 0" using suc True by simp
    then show ?thesis using e ne ne8 pre True
      by (simp add: bid_linked_list_del_def Let_def pre_of_def suc_of_def set_suc_def set_pre_def)
  next
    case False
    have "(k - 1) * sz \<le> k * sz" by (intro mult_le_mono1) simp
    with b have "(k - 1) * sz < 4096" by linarith
    then have nz: "slot pa sz (k - 1) \<noteq> 0" unfolding slot_def using pa0 nw by (intro slot_nonzero)
    have s2: "?M (?r + 8) = slot pa sz (k - 1)" using suc False by simp
    show ?thesis using e ne ne8 pre s2 nz False
      by (simp add: bid_linked_list_del_def Let_def pre_of_def suc_of_def set_suc_def set_pre_def)
  qed
qed


lemma carved_outside:
  assumes sz: "0 < sz" and k: "k * sz \<le> 4096" and a: "4096 \<le> unat (a - pa)" "a \<noteq> emp + 8"
  shows "carved emp pa sz k m a = m a"
proof -
  have "k \<le> unat (a - pa) div sz"
    using sz k a(1) by (simp add: less_eq_div_iff_mult_less_eq)
  then show ?thesis using a(2) by (simp add: carved_def Let_def)
qed

lemma slot_bound:
  assumes "Suc k * sz \<le> (n :: nat)" "16 \<le> sz" "i \<le> k"
  shows "i * sz + 8 < n" "i * sz < n"
proof -
  from assms(3) have "i * sz \<le> k * sz" by (rule mult_le_mono1)
  moreover have "Suc k * sz = k * sz + sz" by simp
  ultimately show "i * sz + 8 < n" "i * sz < n" using assms(1,2) by linarith+
qed

text \<open>
  On a page whose link cells are clear: when the free list of the pool is empty,
  \<^verbatim>\<open>get_element\<close> takes one page from the physical allocator, clears the first 8 bytes
  of it, carves the page into \<open>4096 div sz\<close> entries and returns the head of the free
  list, the last slot carved; the other slots stay on the free list, and every cell of
  the page that is not a link keeps its content.
\<close>

lemma get_element_empty_pool:
  assumes e: "suc_of (mem s) emp = 0" and f: "free_mem s = pa # rest"
    and ok: "carve_ok emp pa sz (memset0 pa 8 (mem s))" and nn: "emp \<noteq> 0"
  shows "\<exists>s'. get_element valid emp (int sz) s = Some (Inr (slot pa sz (4096 div sz - 1), s')) \<and>
           free_mem s' = rest \<and>
           node_list (mem s') (suc_of (mem s') emp) (map (slot pa sz) (rev [0..<4096 div sz - 1])) \<and>
           (\<forall>a. 8 \<le> unat (a - pa) \<longrightarrow> a \<noteq> emp + 8 \<longrightarrow>
                (unat (a - pa) < 4096 \<longrightarrow> unat (a - pa) mod sz \<notin> {0, 8}) \<longrightarrow>
                mem s' a = mem s a)"
proof -
  let ?m0 = "memset0 pa 8 (mem s)"
  from ok have sz: "16 \<le> sz" and sz': "sz \<le> 4096" and out: "4096 \<le> unat (emp + 8 - pa)"
    by (auto simp: carve_ok_def)
  have "0 < 4096 div sz" using sz sz' by (simp add: div_greater_zero_iff)
  then obtain k where n: "4096 div sz = Suc k" by (cases "4096 div sz") simp_all
  have "(4096 div sz) * sz \<le> 4096" by simp
  then have k: "Suc k * sz \<le> 4096" by (simp only: n)
  let ?M = "carved emp pa sz (Suc k) ?m0"
  let ?s' = "s\<lparr>free_mem := rest, mem := bid_linked_list_del (slot pa sz k) ?M\<rparr>"
  have r: "get_element valid emp (int sz) s = Some (Inr (slot pa sz k, ?s'))"
    using get_element_empty [OF e f ok, of valid] by (simp add: n)
  have pop: "mem ?s' = (if k = 0 then ?M(emp + 8 := 0)
                        else ?M(emp + 8 := slot pa sz (k - 1), slot pa sz (k - 1) := emp))"
    using pop_carved [OF ok nn k] by simp
  have hd: "suc_of (mem ?s') emp = (if k = 0 then 0 else slot pa sz (k - 1))"
  proof (cases "k = 0")
    case True
    with pop show ?thesis by (simp add: suc_of_def)
  next
    case False
    have b: "(k - 1) * sz < 4096" by (rule slot_bound(2) [OF k sz]) simp
    have "unat (slot pa sz (k - 1) - pa) = (k - 1) * sz" using b by (intro slot_off) simp
    with out b have "slot pa sz (k - 1) \<noteq> emp + 8" by auto
    with False show ?thesis by (simp add: pop suc_of_def)
  qed
  have nl: "node_list (mem ?s') (suc_of (mem ?s') emp) (map (slot pa sz) (rev [0..<k]))"
  proof (cases "k = 0")
    case True
    with hd show ?thesis by simp
  next
    case False
    then obtain j where j: "k = Suc j" by (cases k) simp_all
    have l: "node_list ?M (slot pa sz j) (map (slot pa sz) (rev [0..<Suc j]))"
      by (rule carved_node_list [OF ok _ k]) (simp add: j)
    have fr: "mem ?s' (q + 8) = ?M (q + 8)" if "q \<in> set (map (slot pa sz) (rev [0..<Suc j]))" for q
    proof -
      from that obtain i where i: "i \<le> j" and q: "q = slot pa sz i"
        by (auto simp: less_Suc_eq_le) (metis less_imp_le order_refl)
      from i j have "i \<le> k" by simp
      then have b: "i * sz + 8 < 4096" by (rule slot_bound(1) [OF k sz])
      have o: "unat (q + 8 - pa) = i * sz + 8" unfolding q using b by (intro slot8_off) simp
      have 1: "q + 8 \<noteq> emp + 8" using out o b by auto
      have bj: "j * sz < 4096" by (rule slot_bound(2) [OF k sz]) (simp add: j)
      have oj: "unat (slot pa sz j - pa) = j * sz" using bj by (intro slot_off) simp
      have "unat (q + 8 - pa) mod sz = 8" using sz by (simp add: o)
      moreover have "unat (slot pa sz j - pa) mod sz = 0" by (simp add: oj)
      ultimately have 2: "q + 8 \<noteq> slot pa sz j" by auto
      show ?thesis using 1 2 j pop by simp
    qed
    have "node_list (mem ?s') (slot pa sz j) (map (slot pa sz) (rev [0..<Suc j])) =
          node_list ?M (slot pa sz j) (map (slot pa sz) (rev [0..<Suc j]))"
      by (rule node_list_frame) (rule fr)
    with l have eq: "node_list (mem ?s') (slot pa sz j) (map (slot pa sz) (rev [0..<Suc j]))"
      by simp
    from hd False j have h: "suc_of (mem ?s') emp = slot pa sz j" by simp
    from eq have "node_list (mem ?s') (suc_of (mem ?s') emp) (map (slot pa sz) (rev [0..<Suc j]))"
      by (simp only: h)
    then show ?thesis by (simp only: j)
  qed
  have pay: "mem ?s' a = mem s a"
    if a: "8 \<le> unat (a - pa)" "a \<noteq> emp + 8" "unat (a - pa) < 4096 \<longrightarrow> unat (a - pa) mod sz \<notin> {0, 8}"
    for a
  proof -
    have m0: "?m0 a = mem s a"
    proof -
      have "\<not> a - pa < 8" using a(1) by (simp add: word_less_nat_alt)
      then show ?thesis by (simp add: memset0_def)
    qed
    have M: "?M a = ?m0 a"
    proof (cases "unat (a - pa) < 4096")
      case True
      with a(3) show ?thesis by (intro carved_payload [OF ok]) simp_all
    next
      case False
      then show ?thesis using sz k a(2) by (intro carved_outside) simp_all
    qed
    have "a \<noteq> slot pa sz (k - 1)" if "k \<noteq> 0"
    proof
      assume q: "a = slot pa sz (k - 1)"
      have b: "(k - 1) * sz < 4096" by (rule slot_bound(2) [OF k sz]) simp
      have "unat (a - pa) = (k - 1) * sz" unfolding q using b by (intro slot_off) simp
      with a(3) b show False by simp
    qed
    then show ?thesis using a(2) pop M m0 by (cases "k = 0") simp_all
  qed
  show ?thesis
    using r nl pay by (intro exI [of _ ?s']) (simp add: n)
qed


text \<open>
  A state whose pools are empty and whose first free page holds 0xDEAD at offset 16 and
  0xBEEF at offset 24, where the \<open>va\<close> and \<open>size\<close> fields of the first segment slot will
  lie.
\<close>

definition dirty_pool :: kstate where
  "dirty_pool =
     \<lparr>mem = (\<lambda>_. 0)(0x80100010 := 0xDEAD, 0x80100018 := 0xBEEF),
      free_mem = [0x80100000, 0x80101000, 0x80102000, 0x80103000],
      g_ufree_page = 0x400000, current_pagetable = 0x80080000,
      valid_page_info_head = 0x80020000, empty_page_info_head = 0x80020010,
      valid_segment_info_head = 0x80020020, empty_segment_info_head = 0x80020030,
      console = []\<rparr>"

lemma carve_ok_dirty_pool:
  "carve_ok 0x80020030 0x80100000 32 (memset0 0x80100000 8 (mem dirty_pool))"
  by (auto simp: carve_ok_def memset0_def dirty_pool_def)

text \<open>
  Claim C5 fails in the code.  \<^verbatim>\<open>get_segment_info\<close> on \<open>dirty_pool\<close> takes the page
  0x80100000, carves it into 128 slots of 32 bytes and returns the last, 0x80100FE0.
  \<^verbatim>\<open>memset(pa, 0, sizeof(pa))\<close> clears 8 bytes, the size of the integer \<open>pa\<close>, not the 32
  bytes of the first slot: the cells at offsets 16 and 24, inside the first slot, hold
  0xDEAD and 0xBEEF as before.
\<close>

theorem get_element_first_slot_not_cleared:
  "suc_of (mem dirty_pool) (empty_segment_info_head dirty_pool) = 0 \<and>
   free_mem dirty_pool = [0x80100000, 0x80101000, 0x80102000, 0x80103000] \<and>
   get_segment_info dirty_pool =
     Some (Inr (0x80100FE0,
       dirty_pool\<lparr>free_mem := [0x80101000, 0x80102000, 0x80103000],
         mem := bid_linked_list_del 0x80100FE0
                  (carved 0x80020030 0x80100000 32 128 (memset0 0x80100000 8 (mem dirty_pool)))\<rparr>)) \<and>
   sizeof_segment_info = 32 \<and>
   (0x80100010 :: addr) - 0x80100000 < 32 \<and> (0x80100018 :: addr) - 0x80100000 < 32 \<and>
   bid_linked_list_del 0x80100FE0
     (carved 0x80020030 0x80100000 32 128 (memset0 0x80100000 8 (mem dirty_pool))) 0x80100010 = 0xDEAD \<and>
   bid_linked_list_del 0x80100FE0
     (carved 0x80020030 0x80100000 32 128 (memset0 0x80100000 8 (mem dirty_pool))) 0x80100018 = 0xBEEF"
proof -
  have 0: "suc_of (mem dirty_pool) (empty_segment_info_head dirty_pool) = 0"
    "free_mem dirty_pool = [0x80100000, 0x80101000, 0x80102000, 0x80103000]"
    "sizeof_segment_info = 32"
    by (simp_all add: dirty_pool_def suc_of_def sizeof_segment_info_def)
  have "get_element 0x80020020 0x80020030 (int 32) dirty_pool =
         Some (Inr (slot 0x80100000 32 (4096 div 32 - 1),
           dirty_pool\<lparr>free_mem := [0x80101000, 0x80102000, 0x80103000],
             mem := bid_linked_list_del (slot 0x80100000 32 (4096 div 32 - 1))
                      (carved 0x80020030 0x80100000 32 (4096 div 32) (memset0 0x80100000 8 (mem dirty_pool)))\<rparr>))"
    by (rule get_element_empty [OF _ _ carve_ok_dirty_pool]) (simp_all add: dirty_pool_def suc_of_def)
  then have 1: "get_segment_info dirty_pool =
     Some (Inr (0x80100FE0,
       dirty_pool\<lparr>free_mem := [0x80101000, 0x80102000, 0x80103000],
         mem := bid_linked_list_del 0x80100FE0
                  (carved 0x80020030 0x80100000 32 128 (memset0 0x80100000 8 (mem dirty_pool)))\<rparr>))"
    by (simp add: get_segment_info_def sizeof_segment_info_def slot_def dirty_pool_def)
  have 2: "bid_linked_list_del 0x80100FE0
     (carved 0x80020030 0x80100000 32 128 (memset0 0x80100000 8 (mem dirty_pool))) 0x80100010 = 0xDEAD"
    "bid_linked_list_del 0x80100FE0
     (carved 0x80020030 0x80100000 32 128 (memset0 0x80100000 8 (mem dirty_pool))) 0x80100018 = 0xBEEF"
    by (simp_all add: bid_linked_list_del_def Let_def pre_of_def suc_of_def set_pre_def set_suc_def
        carved_apply memset0_apply dirty_pool_def)
  have 3: "(0x80100010 :: addr) - 0x80100000 < 32" "(0x80100018 :: addr) - 0x80100000 < 32"
    by simp_all
  from 0(1,2) 1 0(3) 3 2 show ?thesis by (intro conjI)
qed


section \<open>Runs from the boot state\<close>

text \<open>
  The state at boot: memory clear (the four list heads included), ten free physical
  pages, the cursor at the first user heap page, an empty root table.
\<close>

definition boot :: kstate where
  "boot =
     \<lparr>mem = (\<lambda>_. 0),
      free_mem = [0x80100000, 0x80101000, 0x80102000, 0x80103000, 0x80104000,
                  0x80105000, 0x80106000, 0x80107000, 0x80108000, 0x80109000],
      g_ufree_page = 0x400000, current_pagetable = 0x80080000,
      valid_page_info_head = 0x80020000, empty_page_info_head = 0x80020010,
      valid_segment_info_head = 0x80020020, empty_segment_info_head = 0x80020030,
      console = []\<rparr>"

lemma boot_simps:
  "mem boot = (\<lambda>_. 0)"
  "free_mem boot = [0x80100000, 0x80101000, 0x80102000, 0x80103000, 0x80104000,
                    0x80105000, 0x80106000, 0x80107000, 0x80108000, 0x80109000]"
  "g_ufree_page boot = 0x400000" "current_pagetable boot = 0x80080000"
  "valid_page_info_head boot = 0x80020000" "empty_page_info_head boot = 0x80020010"
  "valid_segment_info_head boot = 0x80020020" "empty_segment_info_head boot = 0x80020030"
  "console boot = []"
  by (simp_all add: boot_def)

lemma memset0_zero: "memset0 p n (\<lambda>_. 0) = (\<lambda>_. 0)"
  by (rule ext) (simp add: memset0_def)

lemma carve_ok_zero:
  "16 \<le> sz \<Longrightarrow> sz \<le> 4096 \<Longrightarrow> pa \<noteq> 0 \<Longrightarrow> unat pa + 4096 \<le> 2 ^ 64 \<Longrightarrow>
   4096 \<le> unat (emp + 8 - pa) \<Longrightarrow> carve_ok emp pa sz (\<lambda>_. 0)"
  by (simp add: carve_ok_def)

lemma boot_get_segment_info:
  "get_segment_info boot = Some (Inr (0x80100FE0,
     boot\<lparr>free_mem := tl (free_mem boot),
          mem := bid_linked_list_del 0x80100FE0 (carved 0x80020030 0x80100000 32 128 (\<lambda>_. 0))\<rparr>))"
proof -
  have "get_element 0x80020020 0x80020030 (int 32) boot =
          Some (Inr (slot 0x80100000 32 (4096 div 32 - 1),
            boot\<lparr>free_mem := tl (free_mem boot),
              mem := bid_linked_list_del (slot 0x80100000 32 (4096 div 32 - 1))
                       (carved 0x80020030 0x80100000 32 (4096 div 32)
                          (memset0 0x80100000 8 (mem boot)))\<rparr>))"
    by (rule get_element_empty) (simp_all add: boot_simps suc_of_def memset0_zero carve_ok_zero)
  then show ?thesis
    by (simp add: get_segment_info_def sizeof_segment_info_def boot_simps slot_def memset0_zero)
qed

lemma boot_get_page_info:
  "get_page_info boot = Some (Inr (0x80100FC8,
     boot\<lparr>free_mem := tl (free_mem boot),
          mem := bid_linked_list_del 0x80100FC8 (carved 0x80020010 0x80100000 40 102 (\<lambda>_. 0))\<rparr>))"
proof -
  have "get_element 0x80020000 0x80020010 (int 40) boot =
          Some (Inr (slot 0x80100000 40 (4096 div 40 - 1),
            boot\<lparr>free_mem := tl (free_mem boot),
              mem := bid_linked_list_del (slot 0x80100000 40 (4096 div 40 - 1))
                       (carved 0x80020010 0x80100000 40 (4096 div 40)
                          (memset0 0x80100000 8 (mem boot)))\<rparr>))"
    by (rule get_element_empty) (simp_all add: boot_simps suc_of_def memset0_zero carve_ok_zero)
  then show ?thesis
    by (simp add: get_page_info_def sizeof_page_info_def boot_simps slot_def memset0_zero)
qed

lemma get_page_info_nonempty:
  "suc_of (mem s) (empty_page_info_head s) \<noteq> 0 \<Longrightarrow>
   get_page_info s =
     Some (Inr (suc_of (mem s) (empty_page_info_head s),
       s\<lparr>mem := bid_linked_list_del (suc_of (mem s) (empty_page_info_head s)) (mem s)\<rparr>))"
  by (simp add: get_page_info_def get_element_nonempty)

lemma get_segment_info_nonempty:
  "suc_of (mem s) (empty_segment_info_head s) \<noteq> 0 \<Longrightarrow>
   get_segment_info s =
     Some (Inr (suc_of (mem s) (empty_segment_info_head s),
       s\<lparr>mem := bid_linked_list_del (suc_of (mem s) (empty_segment_info_head s)) (mem s)\<rparr>))"
  by (simp add: get_segment_info_def get_element_nonempty)

lemmas list_eval = bid_linked_list_del_def bid_linked_list_app_def delete_element_def
  pre_of_def suc_of_def va_of_def next_of_def size_of_def occupy_of_def
  set_pre_def set_suc_def set_va_def set_next_def set_size_def set_occupy_def
  carved_apply

lemmas heap_eval = user_malloc_def user_malloc_small_def user_malloc_small_fresh_def
  user_malloc_small_split_def sprint_segments.simps user_malloc_small_search.simps
  bind_outcome_def alloc_page_with_vm_def get_page_info_nonempty get_segment_info_nonempty
  user_malloc_big_def pagenum_of_def

lemmas free_eval = user_free_def bind_outcome_def sprint_segments.simps user_free_search.simps user_free_pages.simps user_free_big.simps
  user_free_small_def free_page_by_va_def delete_segment_info_def delete_page_info_def
  free_page_def lookup_pa_def

text \<open>After \<^verbatim>\<open>user_malloc(100, perm)\<close> at boot, \<open>perm\<close> the bits of a user read-write page.\<close>

definition small_state :: kstate where
  "small_state = boot
     \<lparr>free_mem := [0x80104000, 0x80105000, 0x80106000, 0x80107000, 0x80108000, 0x80109000],
      g_ufree_page := 0x401000, console := [(0x80101000, 0x400000)],
      mem :=
        (memset0 0x80103000 4096
          ((memset0 0x80102000 4096
             ((carved 0x80020030 0x80100000 32 128 (\<lambda>_. 0))
              (0x80020038 := 0x80100FC0, 0x80100FC0 := 0x80020030,
                 0x80100FE0 := 0x80020020, 0x80100FE8 := 0,
                 0x80020028 := 0x80100FE0)))
           (0x80080000 := 0x20040801)))
        (0x80102010 := 0x20040C01, 0x80103000 := 0x200404D7,
           0x80100FF0 := 0x400000, 0x80100FFA := 1,
           0x80020038 := 0x80100FA0, 0x80100FA0 := 0x80020030,
           0x80100FC0 := 0x80100FE0, 0x80100FC8 := 0,
           0x80100FE8 := 0x80100FC0, 0x80100FD0 := 0x400064,
           0x80100FD8 := 3996, 0x80100FDA := 0,
           0x80100FF8 := 100)\<rparr>"

lemma small_malloc: "user_malloc 100 214 boot = Some (Inr (0x400000, small_state))"
  by (simp add: list_eval pt_eval heap_eval boot_get_segment_info boot_simps small_state_def)

text \<open>After \<^verbatim>\<open>user_free(0x400000)\<close> in that state.\<close>

definition freed_state :: kstate where
  "freed_state = boot
     \<lparr>g_ufree_page := 0x401000, console := [(0x80101000, 0x400000)],
      mem :=
        (memset0 0x80103000 4096
          ((memset0 0x80102000 4096
             ((carved 0x80020030 0x80100000 32 128 (\<lambda>_. 0))
              (0x80020038 := 0x80100FC0, 0x80100FC0 := 0x80020030,
                 0x80100FE0 := 0x80020020, 0x80100FE8 := 0,
                 0x80020028 := 0x80100FE0)))
           (0x80080000 := 0x20040801)))
        (0x80102010 := 0x20040C01, 0x80100FF0 := 0x400000,
           0x80100FD0 := 0x400064, 0x80100FD8 := 3996,
           0x80100FDA := 0, 0x80100FFA := 0, 0x80100FF8 := 4096,
           0x80100FE8 := 0, 0x80100FC0 := 0x80020030,
           0x80100FC8 := 0x80100FA0, 0x80100FA0 := 0x80100FC0,
           0x80020038 := 0x80100FC0, 0x80103000 := 0x200404D6),
      free_mem := [0x80101000, 0x80104000, 0x80105000, 0x80106000, 0x80107000,
                   0x80108000, 0x80109000]\<rparr>"

lemma small_free: "user_free 0x400000 small_state = Some (Inr freed_state)"
  by (simp add: list_eval pt_eval free_eval boot_simps small_state_def freed_state_def)



text \<open>After \<^verbatim>\<open>user_malloc(3 * PGSIZE, perm)\<close> at boot.\<close>

definition big_state :: kstate where
  "big_state = boot
     \<lparr>free_mem := [0x80107000, 0x80108000, 0x80109000],
      g_ufree_page := 0x404000,
      console := [(0x80101000, 0x400000), (0x80104000, 0x401000),
                  (0x80105000, 0x402000), (0x80106000, 0x403000)],
      mem :=
        (memset0 0x80103000 4096
          ((memset0 0x80102000 4096
             ((carved 0x80020010 0x80100000 40 102 (\<lambda>_. 0))
              (0x80020018 := 0x80100FA0, 0x80100FA0 := 0x80020010)))
           (0x80080000 := 0x20040801)))
        (0x80102010 := 0x20040C01, 0x80103000 := 0x200404D7,
           0x80100FD8 := 0x400000, 0x80100F78 := 0x80020010,
           0x80100FE8 := 0x80100FA0, 0x80103008 := 0x200410D7,
           0x80100FB0 := 0x401000, 0x80100F50 := 0x80020010,
           0x80100FC0 := 0x80100F78, 0x80103010 := 0x200414D7,
           0x80100F88 := 0x402000, 0x80020018 := 0x80100F28,
           0x80100F28 := 0x80020010, 0x80100F98 := 0x80100F50,
           0x80103018 := 0x200418D7, 0x80100F60 := 0x403000)\<rparr>"

lemma big_loop:
  "user_malloc_big_loop (Suc (Suc (Suc (Suc 0)))) 0 214 boot = Some (Inr big_state)"
  by (simp add: list_eval pt_eval heap_eval boot_get_page_info boot_simps big_state_def)

lemma big_malloc: "user_malloc (3 * PGSIZE) 214 boot = Some (Inr (0x400000, big_state))"
proof -
  have n: "nat (sint (pagenum_of (3 * PGSIZE))) = Suc (Suc (Suc (Suc 0)))"
    by (simp add: pagenum_of_def PGSIZE_def)
  have r: "boot\<lparr>g_ufree_page := ROUNDDOWN (g_ufree_page boot + PGSIZE - 1) PGSIZE\<rparr> = boot"
    by (simp add: boot_def ROUNDDOWN_def PGSIZE_def)
  have b: "PGSIZE \<le> 3 * PGSIZE" by (simp add: PGSIZE_def)
  have g: "g_ufree_page boot = 0x400000" by (simp add: boot_def)
  show ?thesis
    by (simp only: user_malloc_def b if_True user_malloc_big_def Let_def n r big_loop)
      (simp add: bind_outcome_def g)
qed

lemma big_free: "user_free 0x403000 big_state = Some (Inr big_state)"
  by (simp add: list_eval pt_eval free_eval boot_simps big_state_def)


section \<open>Claims on the heap allocator\<close>

text \<open>
  Claim C1 fails in the code.  \<^verbatim>\<open>user_malloc(3 * PGSIZE)\<close> at boot chains the page-info nodes
  0x80100FC8, 0x80100FA0, 0x80100F78 and 0x80100F50, the last without \<open>next\<close> and with
  address 0x403000, and puts none of them on the valid page-info list, which stays empty.
  \<^verbatim>\<open>user_free(0x403000)\<close> then returns with the state as it was: every page of the
  allocation is still mapped, none went back to the physical allocator, and no node
  went back to the pool.
\<close>

theorem user_free_big_unreached:
  "user_malloc (3 * PGSIZE) 214 boot = Some (Inr (0x400000, big_state)) \<and>
   next_of (mem big_state) 0x80100FC8 = 0x80100FA0 \<and>
   next_of (mem big_state) 0x80100FA0 = 0x80100F78 \<and>
   next_of (mem big_state) 0x80100F78 = 0x80100F50 \<and>
   next_of (mem big_state) 0x80100F50 = 0 \<and>
   va_of (mem big_state) 0x80100F50 = 0x403000 \<and>
   suc_of (mem big_state) (valid_page_info_head big_state) = 0 \<and>
   user_free 0x403000 big_state = Some (Inr big_state) \<and>
   lookup_pa 0x80080000 0x400000 big_state = Inr 0x80101000 \<and>
   lookup_pa 0x80080000 0x401000 big_state = Inr 0x80104000 \<and>
   lookup_pa 0x80080000 0x402000 big_state = Inr 0x80105000 \<and>
   lookup_pa 0x80080000 0x403000 big_state = Inr 0x80106000"
proof -
  have 1: "next_of (mem big_state) 0x80100FC8 = 0x80100FA0"
    "next_of (mem big_state) 0x80100FA0 = 0x80100F78"
    "next_of (mem big_state) 0x80100F78 = 0x80100F50"
    "next_of (mem big_state) 0x80100F50 = 0"
    "va_of (mem big_state) 0x80100F50 = 0x403000"
    "suc_of (mem big_state) (valid_page_info_head big_state) = 0"
    by (simp_all add: list_eval pt_eval boot_simps big_state_def)
  have 2: "lookup_pa 0x80080000 0x400000 big_state = Inr 0x80101000"
    "lookup_pa 0x80080000 0x401000 big_state = Inr 0x80104000"
    "lookup_pa 0x80080000 0x402000 big_state = Inr 0x80105000"
    "lookup_pa 0x80080000 0x403000 big_state = Inr 0x80106000"
    by (simp_all add: lookup_pa_def pt_eval boot_simps big_state_def)
  from big_malloc big_free 1 2 show ?thesis by (intro conjI)
qed

text \<open>
  Claim C2 fails in the code.  For a request of \<open>3 * PGSIZE\<close> bytes the page count
  \<^verbatim>\<open>(size + PGSIZE + 1) / PGSIZE\<close> is 4, where the ceiling of \<open>size / PGSIZE\<close> is 3:
  at boot \<^verbatim>\<open>user_malloc\<close> maps four pages, 0x400000 to 0x403000, on four physical pages, and
  moves the cursor on by four pages.
\<close>

theorem user_malloc_big_page_count:
  "nat (sint (pagenum_of (3 * PGSIZE))) = 4 \<and>
   (3 * PGSIZE + PGSIZE - 1) div PGSIZE = 3 \<and>
   user_malloc (3 * PGSIZE) 214 boot = Some (Inr (0x400000, big_state)) \<and>
   g_ufree_page big_state = g_ufree_page boot + 4 * PGSIZE \<and>
   console boot = [] \<and>
   console big_state = [(0x80101000, 0x400000), (0x80104000, 0x401000),
                        (0x80105000, 0x402000), (0x80106000, 0x403000)]"
proof -
  have 1: "nat (sint (pagenum_of (3 * PGSIZE))) = 4" "(3 * PGSIZE + PGSIZE - 1) div PGSIZE = 3"
    by (simp_all add: pagenum_of_def PGSIZE_def)
  have 2: "g_ufree_page big_state = g_ufree_page boot + 4 * PGSIZE" "console boot = []"
    "console big_state = [(0x80101000, 0x400000), (0x80104000, 0x401000),
                          (0x80105000, 0x402000), (0x80106000, 0x403000)]"
    by (simp_all add: big_state_def boot_def PGSIZE_def)
  from 1 2 big_malloc show ?thesis by (intro conjI)
qed

text \<open>
  Claim C3 fails in the code.  At boot \<^verbatim>\<open>user_malloc(100)\<close> returns 0x400000, the segment
  node 0x80100FE0, followed on the valid list by the free rest of the page.
  \<^verbatim>\<open>user_free(0x400000)\<close> marks the node free, merges the rest into it, and with the size
  now one page unmaps the page and gives its physical page back; but the node is not
  released: it is still on the valid segment list, free, with size 4096.
\<close>

theorem user_free_small_keeps_node:
  "user_malloc 100 214 boot = Some (Inr (0x400000, small_state)) \<and>
   node_list (mem small_state) (suc_of (mem small_state) (valid_segment_info_head small_state))
     [0x80100FE0, 0x80100FC0] \<and>
   lookup_pa 0x80080000 0x400000 small_state = Inr 0x80101000 \<and>
   user_free 0x400000 small_state = Some (Inr freed_state) \<and>
   lookup_pa 0x80080000 0x400000 freed_state = Inr 0 \<and>
   free_mem freed_state = 0x80101000 # free_mem small_state \<and>
   node_list (mem freed_state) (suc_of (mem freed_state) (valid_segment_info_head freed_state))
     [0x80100FE0] \<and>
   va_of (mem freed_state) 0x80100FE0 = 0x400000 \<and>
   size_of (mem freed_state) 0x80100FE0 = 4096 \<and>
   occupy_of (mem freed_state) 0x80100FE0 = 0 \<and>
   suc_of (mem freed_state) (empty_segment_info_head freed_state) = 0x80100FC0"
proof -
  have 1: "node_list (mem small_state) (suc_of (mem small_state) (valid_segment_info_head small_state))
     [0x80100FE0, 0x80100FC0]"
    by (simp add: list_eval pt_eval boot_simps small_state_def)
  have 2: "lookup_pa 0x80080000 0x400000 small_state = Inr 0x80101000"
    by (simp add: lookup_pa_def pt_eval boot_simps small_state_def)
  have 3: "lookup_pa 0x80080000 0x400000 freed_state = Inr 0"
    by (simp add: lookup_pa_def pt_eval boot_simps freed_state_def)
  have 4: "free_mem freed_state = 0x80101000 # free_mem small_state"
    by (simp add: freed_state_def small_state_def)
  have 5: "node_list (mem freed_state) (suc_of (mem freed_state) (valid_segment_info_head freed_state))
     [0x80100FE0]"
    by (simp add: list_eval pt_eval boot_simps freed_state_def)
  have 6: "va_of (mem freed_state) 0x80100FE0 = 0x400000"
    "size_of (mem freed_state) 0x80100FE0 = 4096"
    "occupy_of (mem freed_state) 0x80100FE0 = 0"
    "suc_of (mem freed_state) (empty_segment_info_head freed_state) = 0x80100FC0"
    by (simp_all add: list_eval pt_eval boot_simps freed_state_def)
  from small_malloc small_free 1 2 3 4 5 6 show ?thesis by (intro conjI)
qed

lemma sprint_segments_list: "node_list m p ps \<Longrightarrow> sprint_segments m p = Some ()"
proof (induction ps arbitrary: p)
  case Nil
  then show ?case by (simp add: sprint_segments.simps)
next
  case (Cons q qs)
  then show ?case by (subst sprint_segments.simps) auto
qed

lemma user_free_search_none:
  "node_list m p ps \<Longrightarrow> \<forall>q \<in> set ps. va_of m q \<noteq> va \<Longrightarrow> user_free_search va m p = Some 0"
proof (induction ps arbitrary: p)
  case Nil
  then show ?case by (simp add: user_free_search.simps)
next
  case (Cons q qs)
  then show ?case by (subst user_free_search.simps) auto
qed

lemma user_free_pages_none:
  "node_list (mem s) p ps \<Longrightarrow>
   \<forall>q \<in> set ps. \<not> (next_of (mem s) q = 0 \<and> va_of (mem s) q = va) \<Longrightarrow>
   user_free_pages va p s = Some (Inr s)"
proof (induction ps arbitrary: p)
  case Nil
  then show ?case by (simp add: user_free_pages.simps)
next
  case (Cons q qs)
  then show ?case by (subst user_free_pages.simps) auto
qed

text \<open>
  Claim C8.  When the valid segment list and the valid page-info list end in NULL, no
  segment on the first has the address \<open>va\<close>, and no node without \<open>next\<close> on the second
  has it, \<^verbatim>\<open>user_free(va)\<close> returns and leaves the whole state as it was: memory (the
  lists, the pools, the page table), the physical allocator and the cursor.
\<close>

theorem user_free_not_found:
  assumes "node_list (mem s) (suc_of (mem s) (valid_segment_info_head s)) segs"
    and "\<forall>q \<in> set segs. va_of (mem s) q \<noteq> va"
    and "node_list (mem s) (suc_of (mem s) (valid_page_info_head s)) pages"
    and "\<forall>q \<in> set pages. \<not> (next_of (mem s) q = 0 \<and> va_of (mem s) q = va)"
  shows "user_free va s = Some (Inr s)"
  using sprint_segments_list [OF assms(1)] user_free_search_none [OF assms(1,2)]
    user_free_pages_none [OF assms(3,4)]
  by (simp add: user_free_def bind_outcome_def)

theorem user_free_not_found_witness:
  "node_list (mem small_state) (suc_of (mem small_state) (valid_segment_info_head small_state))
     [0x80100FE0, 0x80100FC0] \<and>
   va_of (mem small_state) 0x80100FE0 = 0x400000 \<and>
   va_of (mem small_state) 0x80100FC0 = 0x400064 \<and>
   node_list (mem small_state) (suc_of (mem small_state) (valid_page_info_head small_state)) [] \<and>
   user_free 0x500000 small_state = Some (Inr small_state)"
proof -
  have 1: "node_list (mem small_state) (suc_of (mem small_state) (valid_segment_info_head small_state))
     [0x80100FE0, 0x80100FC0]"
    by (simp add: list_eval pt_eval boot_simps small_state_def)
  have 2: "va_of (mem small_state) 0x80100FE0 = 0x400000"
    "va_of (mem small_state) 0x80100FC0 = 0x400064"
    by (simp_all add: list_eval pt_eval boot_simps small_state_def)
  have 3: "node_list (mem small_state) (suc_of (mem small_state) (valid_page_info_head small_state)) []"
    by (simp add: list_eval pt_eval boot_simps small_state_def)
  have 4: "\<forall>q \<in> set [0x80100FE0, 0x80100FC0]. va_of (mem small_state) q \<noteq> 0x500000"
    using 2 by simp
  have 5: "\<forall>q \<in> set []. \<not> (next_of (mem small_state) q = 0 \<and> va_of (mem small_state) q = 0x500000)"
    by simp
  from user_free_not_found [OF 1 4 3 5] 1 2 3 show ?thesis by (intro conjI)
qed


text \<open>
  Claim C9.  In a state where the cursor is not beyond MAXVA, lies above every page
  address \<^verbatim>\<open>alloc_page_with_vm\<close> has printed, and those addresses increase strictly,
  every \<^verbatim>\<open>user_malloc\<close> (small or big) and every \<^verbatim>\<open>user_free\<close> that returns leaves the
  cursor where it was or higher, keeps that invariant, and only adds to the printed
  pages: the fresh pages handed out are pairwise different, now and ever after.
\<close>

theorem cursor_monotone:
  assumes "cursor_inv s"
  shows "(\<forall>sz perm va s'. user_malloc sz perm s = Some (Inr (va, s')) \<longrightarrow>
            g_ufree_page s \<le> g_ufree_page s' \<and> cursor_inv s' \<and>
            (\<exists>new. console s' = console s @ new) \<and> distinct (map snd (console s'))) \<and>
         (\<forall>va s'. user_free va s = Some (Inr s') \<longrightarrow>
            g_ufree_page s \<le> g_ufree_page s' \<and> cursor_inv s' \<and>
            (\<exists>new. console s' = console s @ new) \<and> distinct (map snd (console s')))"
proof -
  have d: "distinct (map snd (console t))" if "cursor_inv t" for t
    using that by (simp add: cursor_inv_def strict_sorted_iff)
  have "g_ufree_page s \<le> g_ufree_page s' \<and> cursor_inv s' \<and>
        (\<exists>new. console s' = console s @ new) \<and> distinct (map snd (console s'))"
    if "cursor_step s s'" for s'
    using that assms d [of s'] by (auto simp: cursor_step_def)
  then show ?thesis
    by (blast intro: user_malloc_cursor user_free_cursor)
qed

theorem cursor_monotone_witness:
  "cursor_inv boot \<and>
   user_malloc 100 214 boot = Some (Inr (0x400000, small_state)) \<and>
   g_ufree_page boot \<le> g_ufree_page small_state \<and> cursor_inv small_state \<and>
   distinct (map snd (console small_state)) \<and>
   user_free 0x400000 small_state = Some (Inr freed_state) \<and>
   g_ufree_page small_state \<le> g_ufree_page freed_state \<and> cursor_inv freed_state"
proof -
  have b: "cursor_inv boot" by (simp add: cursor_inv_def boot_def MAXVA_def)
  from cursor_monotone [OF b] small_malloc
  have 1: "g_ufree_page boot \<le> g_ufree_page small_state \<and> cursor_inv small_state \<and>
           distinct (map snd (console small_state))"
    by blast
  then have c: "cursor_inv small_state" by simp
  from cursor_monotone [OF c] small_free
  have 2: "g_ufree_page small_state \<le> g_ufree_page freed_state \<and> cursor_inv freed_state"
    by blast
  from b small_malloc small_free 1 2 show ?thesis by (intro conjI) simp_all
qed


section \<open>Page tables under their invariant\<close>

text \<open>
  Addresses that start a page, and entries with PTE_V.  A table is a page of 512
  entries of 8 bytes; the entry of index \<open>i\<close> of table \<open>t\<close> is the cell \<open>t + 8 * i\<close>.
\<close>

definition page_aligned :: "u64 \<Rightarrow> bool" where
  "page_aligned a \<longleftrightarrow> unat a mod 4096 = 0"

definition pte_valid :: "u64 \<Rightarrow> bool" where
  "pte_valid e \<longleftrightarrow> e AND PTE_V \<noteq> 0"

lemma unat_lt64: "unat (a :: u64) < 2 ^ 64"
  using unsigned_less [of a, where 'a = nat] by simp

lemma page_aligned_take_bit: "page_aligned a \<longleftrightarrow> take_bit 12 a = 0"
proof -
  have "unat (take_bit 12 a) = unat a mod 4096"
    by (simp add: unsigned_take_bit_eq take_bit_eq_mod unat_mod)
  then show ?thesis by (metis page_aligned_def unat_0_iff)
qed

lemma page_aligned_bit: "page_aligned a \<Longrightarrow> n < 12 \<Longrightarrow> \<not> bit a n"
proof
  assume a: "page_aligned a" and n: "n < 12" and b: "bit a n"
  from n b have "bit (take_bit 12 a) n" by (simp add: bit_take_bit_iff)
  with a show False by (simp add: page_aligned_take_bit)
qed

lemma PX_less: "PX level va < 512"
proof -
  have "PX level va \<le> 511" unfolding PX_def by (rule word_and_le1)
  then show ?thesis by (simp add: word_le_nat_alt word_less_nat_alt)
qed

lemma unat_8_idx: "idx < 512 \<Longrightarrow> unat (8 * idx :: u64) = 8 * unat idx"
  by (simp add: unat_word_ariths word_less_nat_alt)

lemma cell_in_page: "idx < 512 \<Longrightarrow> (t + 8 * idx) - t < (4096 :: u64)"
  by (simp add: word_less_nat_alt unat_8_idx)

lemma cell_inj: "idx < 512 \<Longrightarrow> idx' < 512 \<Longrightarrow> t + 8 * idx = t + 8 * idx' \<Longrightarrow> idx = (idx' :: u64)"
proof -
  assume a: "idx < 512" "idx' < 512" and e: "t + 8 * idx = t + 8 * idx'"
  from e have "8 * idx = 8 * idx'" by simp
  then have "unat (8 * idx) = unat (8 * idx')" by simp
  with a have "unat idx = unat idx'" by (simp add: unat_8_idx)
  then show ?thesis by (simp add: word_unat_eq_iff)
qed

lemma in_page_iff:
  assumes "page_aligned t"
  shows "a - t < 4096 \<longleftrightarrow> unat a div 4096 = unat t div 4096"
proof -
  from assms obtain k where k: "unat t = 4096 * k" by (auto simp: page_aligned_def)
  note tb = unat_lt64 [of t] and ab = unat_lt64 [of a]
  have s: "unat (a - t) = (if unat t \<le> unat a then unat a - unat t else unat a + 2 ^ 64 - unat t)"
    by (simp add: unat_sub_if')
  have d: "unat t div 4096 = k" by (simp add: k)
  show ?thesis
  proof (cases "unat t \<le> unat a")
    case True
    have "unat a - unat t < 4096 \<longleftrightarrow> unat a div 4096 = k"
    proof
      assume "unat a - unat t < 4096"
      with True k have "4096 * k \<le> unat a" "unat a < 4096 * k + 4096" by simp_all
      then show "unat a div 4096 = k"
        by (metis (no_types) add.commute div_nat_eqI mult.commute mult_Suc)
    next
      assume e: "unat a div 4096 = k"
      have "unat a = 4096 * (unat a div 4096) + unat a mod 4096" by simp
      also have "\<dots> < 4096 * k + 4096" unfolding e by simp
      finally show "unat a - unat t < 4096" using k by simp
    qed
    with True s d show ?thesis by (simp add: word_less_nat_alt)
  next
    case False
    then have lt: "unat a < 4096 * k" using k by simp
    have "k * 4096 \<le> 2 ^ 64 - 4096"
    proof -
      have "k < 2 ^ 52" using tb k by simp
      then have "k + 1 \<le> 2 ^ 52" by simp
      then have "(k + 1) * 4096 \<le> 2 ^ 52 * 4096" by (rule mult_le_mono1)
      then show ?thesis by simp
    qed
    then have "4096 \<le> unat a + 2 ^ 64 - unat t" using k by simp
    moreover have "unat a div 4096 \<noteq> k"
    proof
      assume "unat a div 4096 = k"
      then have "4096 * k \<le> unat a" by (metis times_div_less_eq_dividend)
      with lt show False by simp
    qed
    ultimately show ?thesis using False s d by (simp add: word_less_nat_alt)
  qed
qed

lemma same_page:
  "page_aligned t \<Longrightarrow> page_aligned t' \<Longrightarrow> a - t < 4096 \<Longrightarrow> a - t' < 4096 \<Longrightarrow> t = t'"
proof -
  assume a: "page_aligned t" "page_aligned t'" and i: "a - t < 4096" "a - t' < 4096"
  from i have "unat t div 4096 = unat t' div 4096" by (simp add: in_page_iff a)
  moreover have "unat t = 4096 * (unat t div 4096)" "unat t' = 4096 * (unat t' div 4096)"
    using a by (auto simp: page_aligned_def)
  ultimately have "unat t = unat t'" by metis
  then show ?thesis by (simp add: word_unat_eq_iff)
qed

lemma PTE2PA_aligned: "page_aligned (PTE2PA e)"
  unfolding page_aligned_take_bit PTE2PA_def
  by (rule bit_word_eqI) (simp add: bit_simps)

lemma PTE2PA_PA2PTE:
  assumes "page_aligned q" and "perm < 1024"
  shows "PTE2PA (PA2PTE q OR perm) = q"
proof -
  have p: "\<not> bit perm n" if "10 \<le> n" for n
  proof
    assume b: "bit perm n"
    have "perm < 2 ^ 10" using assms(2) by simp
    then have "perm AND mask 10 = perm" by (rule less_mask_eq)
    then have "take_bit 10 perm = perm" by (simp add: take_bit_eq_mask)
    then have "bit (take_bit 10 perm) n" using b by simp
    with that show False by (simp add: bit_take_bit_iff)
  qed
  show ?thesis
    unfolding PTE2PA_def PA2PTE_def
  proof (rule bit_word_eqI)
    fix n assume n: "n < LENGTH(64)"
    show "bit (push_bit 12 (drop_bit 10 (push_bit 10 (drop_bit 12 q) OR perm))) n = bit q n"
    proof (cases "n < 12")
      case True
      with page_aligned_bit [OF assms(1) True] show ?thesis by (simp add: bit_simps)
    next
      case False
      then have "10 \<le> n - 12 + 10" by simp
      with False n p [of "n - 12 + 10"] show ?thesis
        by (auto simp: bit_simps)
    qed
  qed
qed

lemma or_valid [simp]: "pte_valid (e OR PTE_V)"
proof -
  have "(e OR 1) AND 1 = (1::u64)" by (rule bit_word_eqI) (auto simp: bit_simps)
  then show ?thesis by (simp add: pte_valid_def PTE_V_def)
qed


text \<open>
  What \<^verbatim>\<open>page_walk\<close> reads when it does not allocate: from a table to the next one
  through a valid entry, and from the root to the cell of the leaf entry of \<open>va\<close>.
\<close>

definition walk_table :: "memory \<Rightarrow> addr \<Rightarrow> nat \<Rightarrow> u64 \<Rightarrow> addr option" where
  "walk_table m pt level va =
     (if pte_valid (m (pt + 8 * PX level va)) then Some (PTE2PA (m (pt + 8 * PX level va)))
      else None)"

definition leaf_cell :: "memory \<Rightarrow> addr \<Rightarrow> u64 \<Rightarrow> addr option" where
  "leaf_cell m pd va =
     (case walk_table m pd 2 va of
        None \<Rightarrow> None
      | Some t1 \<Rightarrow>
          (case walk_table m t1 1 va of
             None \<Rightarrow> None
           | Some t0 \<Rightarrow> Some (t0 + 8 * PX 0 va)))"

text \<open>
  The tables the root points to, and the tables those point to.  The tables are well
  formed when the root starts a page and the three kinds are apart: the root is no
  middle and no leaf table, no table is both, and no leaf table lies at address 0 (its
  first entry would be the null pointer).  A state is well formed when, in addition, the
  free list of the physical allocator holds page starts, none of them 0, the root or a
  table, and none twice.  \<open>install c q m\<close> is the memory after \<^verbatim>\<open>page_walk\<close> has taken
  the page \<open>q\<close> as a new table under the entry \<open>c\<close>.
\<close>

definition l1_tables :: "memory \<Rightarrow> addr \<Rightarrow> addr set" where
  "l1_tables m pd = {PTE2PA (m (pd + 8 * i)) | i. i < 512 \<and> pte_valid (m (pd + 8 * i))}"

definition l0_tables :: "memory \<Rightarrow> addr \<Rightarrow> addr set" where
  "l0_tables m pd =
     {PTE2PA (m (t + 8 * i)) | t i. t \<in> l1_tables m pd \<and> i < 512 \<and> pte_valid (m (t + 8 * i))}"

definition tables_wf :: "addr \<Rightarrow> memory \<Rightarrow> bool" where
  "tables_wf pd m \<longleftrightarrow>
     page_aligned pd \<and> pd \<notin> l1_tables m pd \<and> pd \<notin> l0_tables m pd \<and>
     l1_tables m pd \<inter> l0_tables m pd = {} \<and> 0 \<notin> l0_tables m pd"

definition pt_wf :: "addr \<Rightarrow> kstate \<Rightarrow> bool" where
  "pt_wf pd s \<longleftrightarrow>
     tables_wf pd (mem s) \<and> distinct (free_mem s) \<and>
     (\<forall>q \<in> set (free_mem s).
        page_aligned q \<and> q \<noteq> 0 \<and> q \<noteq> pd \<and> q \<notin> l1_tables (mem s) pd \<and> q \<notin> l0_tables (mem s) pd)"

definition install :: "addr \<Rightarrow> addr \<Rightarrow> memory \<Rightarrow> memory" where
  "install c q m = (memset0 q PGSIZE m)(c := PA2PTE q OR PTE_V)"

lemma page_walk_level_alloc:
  "page_walk_level pt level va 1 s =
     (if pte_valid (mem s (pt + 8 * PX level va)) then (Some (PTE2PA (mem s (pt + 8 * PX level va))), s)
      else
        (case free_mem s of
           [] \<Rightarrow> (None, s)
         | q # qs \<Rightarrow>
             if q \<noteq> 0
             then (Some q, s\<lparr>free_mem := qs, mem := install (pt + 8 * PX level va) q (mem s)\<rparr>)
             else (None, s\<lparr>free_mem := qs\<rparr>)))"
  by (simp add: page_walk_level_def Let_def pte_valid_def alloc_page_def install_def split: list.splits)

lemma page_walk_level_read:
  "page_walk_level pt level va 0 s = (walk_table (mem s) pt level va, s)"
  by (simp add: page_walk_level_def Let_def walk_table_def pte_valid_def)

lemma page_walk_read:
  "va < MAXVA \<Longrightarrow>
   page_walk pd va 0 s = Inr (case leaf_cell (mem s) pd va of None \<Rightarrow> 0 | Some c \<Rightarrow> c, s)"
  by (simp add: page_walk_def page_walk_level_read leaf_cell_def not_le [symmetric]
      split: option.splits)

lemma install_self:
  "install c q m c = PA2PTE q OR PTE_V"
  by (simp add: install_def)

lemma PTE2PA_link: "page_aligned q \<Longrightarrow> PTE2PA (PA2PTE q OR PTE_V) = q"
  by (rule PTE2PA_PA2PTE) (simp_all add: PTE_V_def)

lemma install_other_page:
  assumes "page_aligned T" "page_aligned q" "T \<noteq> q" "a - T < 4096" "a \<noteq> c"
  shows "install c q m a = m a"
proof -
  have "\<not> a - q < 4096" using same_page [OF assms(1,2) assms(4)] assms(3) by blast
  then show ?thesis using assms(5) by (simp add: install_def memset0_def PGSIZE_def)
qed

lemma install_new_page:
  assumes "a - q < 4096" "a \<noteq> c"
  shows "install c q m a = 0"
  using assms by (simp add: install_def memset0_def PGSIZE_def)

lemma zero_invalid [simp]: "\<not> pte_valid 0"
  by (simp add: pte_valid_def)

lemma cell_other_page:
  assumes "page_aligned T" "page_aligned t" "T \<noteq> t" "i < 512" "j < 512"
  shows "T + 8 * j \<noteq> t + 8 * (i :: u64)"
proof
  assume e: "T + 8 * j = t + 8 * i"
  have "(T + 8 * j) - T < 4096" using assms(5) by (rule cell_in_page)
  moreover have "(T + 8 * j) - t < 4096" unfolding e using assms(4) by (rule cell_in_page)
  ultimately show False using same_page [OF assms(1,2)] assms(3) by blast
qed


lemma l1_tablesI:
  "i < 512 \<Longrightarrow> pte_valid (m (pd + 8 * i)) \<Longrightarrow> PTE2PA (m (pd + 8 * i)) \<in> l1_tables m pd"
  unfolding l1_tables_def by blast

lemma l1_tablesE:
  assumes "x \<in> l1_tables m pd"
  obtains i where "i < 512" "pte_valid (m (pd + 8 * i))" "x = PTE2PA (m (pd + 8 * i))"
  using assms unfolding l1_tables_def by blast

lemma l0_tablesI:
  "T \<in> l1_tables m pd \<Longrightarrow> j < 512 \<Longrightarrow> pte_valid (m (T + 8 * j)) \<Longrightarrow>
   PTE2PA (m (T + 8 * j)) \<in> l0_tables m pd"
  unfolding l0_tables_def by blast

lemma l0_tablesE:
  assumes "x \<in> l0_tables m pd"
  obtains T j where "T \<in> l1_tables m pd" "j < 512" "pte_valid (m (T + 8 * j))"
    "x = PTE2PA (m (T + 8 * j))"
  using assms unfolding l0_tables_def by blast

lemma l1_aligned: "t \<in> l1_tables m pd \<Longrightarrow> page_aligned t"
  by (auto simp: l1_tables_def PTE2PA_aligned)

lemma l0_aligned: "t \<in> l0_tables m pd \<Longrightarrow> page_aligned t"
  by (auto simp: l0_tables_def PTE2PA_aligned)

lemma l1_tables_cong:
  assumes "\<And>j. j < 512 \<Longrightarrow> m' (pd + 8 * j) = m (pd + 8 * j)"
  shows "l1_tables m' pd = l1_tables m pd"
proof (intro set_eqI iffI)
  fix x assume "x \<in> l1_tables m' pd"
  then obtain i where "i < 512" "pte_valid (m' (pd + 8 * i))" "x = PTE2PA (m' (pd + 8 * i))"
    by (rule l1_tablesE)
  then show "x \<in> l1_tables m pd" using assms [of i] l1_tablesI [of i m pd] by simp
next
  fix x assume "x \<in> l1_tables m pd"
  then obtain i where "i < 512" "pte_valid (m (pd + 8 * i))" "x = PTE2PA (m (pd + 8 * i))"
    by (rule l1_tablesE)
  then show "x \<in> l1_tables m' pd" using assms [of i] l1_tablesI [of i m' pd] by simp
qed

lemma l0_tables_cong:
  assumes "l1_tables m' pd = l1_tables m pd"
    and "\<And>T j. T \<in> l1_tables m pd \<Longrightarrow> j < 512 \<Longrightarrow> m' (T + 8 * j) = m (T + 8 * j)"
  shows "l0_tables m' pd = l0_tables m pd"
proof (intro set_eqI iffI)
  fix x assume "x \<in> l0_tables m' pd"
  then obtain T j where "T \<in> l1_tables m' pd" "j < 512" "pte_valid (m' (T + 8 * j))"
    "x = PTE2PA (m' (T + 8 * j))"
    by (rule l0_tablesE)
  then show "x \<in> l0_tables m pd" using assms(2) [of T j] l0_tablesI [of T m pd j] assms(1) by simp
next
  fix x assume "x \<in> l0_tables m pd"
  then obtain T j where "T \<in> l1_tables m pd" "j < 512" "pte_valid (m (T + 8 * j))"
    "x = PTE2PA (m (T + 8 * j))"
    by (rule l0_tablesE)
  then show "x \<in> l0_tables m' pd" using assms(2) [of T j] l0_tablesI [of T m' pd j] assms(1) by simp
qed

lemma link_valid: "page_aligned q \<Longrightarrow> pte_valid (install c q m c) \<and> PTE2PA (install c q m c) = q"
  by (simp add: install_self PTE2PA_link)

lemma install_root_cell:
  assumes "page_aligned pd" "page_aligned q" "q \<noteq> pd" "i < 512" "j < 512" "j \<noteq> i"
  shows "install (pd + 8 * i) q m (pd + 8 * j) = m (pd + 8 * j)"
proof -
  have "pd + 8 * j \<noteq> pd + 8 * i" using cell_inj [OF assms(5,4)] assms(6) by blast
  moreover have "(pd + 8 * j) - pd < 4096" using assms(5) by (rule cell_in_page)
  ultimately show ?thesis using assms(1,2,3) by (intro install_other_page) auto
qed

lemma l1_install_root:
  assumes al: "page_aligned pd" "page_aligned q" "q \<noteq> pd" and i: "i < 512"
    and inv: "\<not> pte_valid (m (pd + 8 * i))"
  shows "l1_tables (install (pd + 8 * i) q m) pd = insert q (l1_tables m pd)"
proof (intro set_eqI iffI)
  fix x assume "x \<in> l1_tables (install (pd + 8 * i) q m) pd"
  then obtain j where j: "j < 512" "pte_valid (install (pd + 8 * i) q m (pd + 8 * j))"
    "x = PTE2PA (install (pd + 8 * i) q m (pd + 8 * j))"
    by (rule l1_tablesE)
  show "x \<in> insert q (l1_tables m pd)"
  proof (cases "j = i")
    case True
    with j link_valid [OF al(2)] show ?thesis by simp
  next
    case False
    with j install_root_cell [OF al i j(1) False, of m] l1_tablesI [of j m pd] show ?thesis by simp
  qed
next
  fix x assume "x \<in> insert q (l1_tables m pd)"
  then consider "x = q" | "x \<in> l1_tables m pd" by blast
  then show "x \<in> l1_tables (install (pd + 8 * i) q m) pd"
  proof cases
    case 1
    with link_valid [OF al(2), of "pd + 8 * i" m] l1_tablesI [of i "install (pd + 8 * i) q m" pd] i
    show ?thesis by simp
  next
    case 2
    then obtain j where j: "j < 512" "pte_valid (m (pd + 8 * j))" "x = PTE2PA (m (pd + 8 * j))"
      by (rule l1_tablesE)
    with inv have "j \<noteq> i" by auto
    with j install_root_cell [OF al i j(1), of m] l1_tablesI [of j "install (pd + 8 * i) q m" pd]
    show ?thesis by simp
  qed
qed

lemma install_table_cell:
  assumes "page_aligned T" "page_aligned t" "page_aligned q" "T \<noteq> q" "T \<noteq> t" "i < 512" "j < 512"
  shows "install (t + 8 * i) q m (T + 8 * j) = m (T + 8 * j)"
proof -
  have "T + 8 * j \<noteq> t + 8 * i" using assms by (intro cell_other_page) auto
  moreover have "(T + 8 * j) - T < 4096" using assms(7) by (rule cell_in_page)
  ultimately show ?thesis using assms by (intro install_other_page) auto
qed

lemma install_fresh_cell:
  assumes "page_aligned t" "page_aligned q" "q \<noteq> t" "i < 512" "j < 512"
  shows "install (t + 8 * i) q m (q + 8 * j) = 0"
proof -
  have "q + 8 * j \<noteq> t + 8 * i" using assms by (intro cell_other_page) auto
  moreover have "(q + 8 * j) - q < 4096" using assms(5) by (rule cell_in_page)
  ultimately show ?thesis by (intro install_new_page) auto
qed

lemma l0_install_root:
  assumes al: "page_aligned pd" "page_aligned q" "q \<noteq> pd" and i: "i < 512"
    and inv: "\<not> pte_valid (m (pd + 8 * i))"
    and sep: "pd \<notin> l1_tables m pd" "q \<notin> l1_tables m pd"
  shows "l0_tables (install (pd + 8 * i) q m) pd = l0_tables m pd"
proof -
  let ?m' = "install (pd + 8 * i) q m"
  have l1: "l1_tables ?m' pd = insert q (l1_tables m pd)"
    using al i inv by (rule l1_install_root)
  have old: "?m' (T + 8 * j) = m (T + 8 * j)" if "T \<in> l1_tables m pd" "j < 512" for T j
  proof -
    from that(1) sep have "T \<noteq> q" "T \<noteq> pd" by auto
    with l1_aligned [OF that(1)] al i that(2) show ?thesis by (intro install_table_cell) auto
  qed
  have new: "?m' (q + 8 * j) = 0" if "j < 512" for j
    using al i that by (intro install_fresh_cell) auto
  show ?thesis
  proof (intro set_eqI iffI)
    fix x assume "x \<in> l0_tables ?m' pd"
    then obtain T j where T: "T \<in> l1_tables ?m' pd" "j < 512"
      "pte_valid (?m' (T + 8 * j))" "x = PTE2PA (?m' (T + 8 * j))"
      by (rule l0_tablesE)
    from T(1) have "T = q \<or> T \<in> l1_tables m pd" unfolding l1 by simp
    then show "x \<in> l0_tables m pd"
    proof
      assume "T = q"
      with T new [OF T(2)] show ?thesis by simp
    next
      assume a: "T \<in> l1_tables m pd"
      with T old [OF a T(2)] l0_tablesI [of T m pd j] show ?thesis by simp
    qed
  next
    fix x assume "x \<in> l0_tables m pd"
    then obtain T j where T: "T \<in> l1_tables m pd" "j < 512"
      "pte_valid (m (T + 8 * j))" "x = PTE2PA (m (T + 8 * j))"
      by (rule l0_tablesE)
    have "T \<in> l1_tables ?m' pd" unfolding l1 using T(1) by simp
    with T old [OF T(1,2)] l0_tablesI [of T ?m' pd j] show "x \<in> l0_tables ?m' pd"
      by simp
  qed
qed

lemma l1_install_mid:
  assumes al: "page_aligned pd" "page_aligned q" "q \<noteq> pd"
    and t: "t \<in> l1_tables m pd" "pd \<notin> l1_tables m pd" and i: "i < 512"
  shows "l1_tables (install (t + 8 * i) q m) pd = l1_tables m pd"
proof (rule l1_tables_cong)
  fix j :: u64 assume "j < 512"
  moreover from t have "pd \<noteq> t" by auto
  ultimately show "install (t + 8 * i) q m (pd + 8 * j) = m (pd + 8 * j)"
    using al l1_aligned [OF t(1)] i by (intro install_table_cell) auto
qed

lemma l0_install_mid:
  assumes al: "page_aligned pd" "page_aligned q" "q \<noteq> pd"
    and t: "t \<in> l1_tables m pd" "pd \<notin> l1_tables m pd" "q \<notin> l1_tables m pd" and i: "i < 512"
    and inv: "\<not> pte_valid (m (t + 8 * i))"
  shows "l0_tables (install (t + 8 * i) q m) pd = insert q (l0_tables m pd)"
proof -
  let ?m' = "install (t + 8 * i) q m"
  have l1: "l1_tables ?m' pd = l1_tables m pd"
    using al t(1,2) i by (rule l1_install_mid)
  have ta: "page_aligned t" by (rule l1_aligned [OF t(1)])
  have tq: "t \<noteq> q" using t by auto
  have old: "?m' (T + 8 * j) = m (T + 8 * j)"
    if "T \<in> l1_tables m pd" "j < 512" "T \<noteq> t \<or> j \<noteq> i" for T j
  proof (cases "T = t")
    case True
    with that(3) have ji: "j \<noteq> i" by simp
    have "t + 8 * j \<noteq> t + 8 * i" using cell_inj [OF that(2) i] ji by blast
    moreover have "(t + 8 * j) - t < 4096" using that(2) by (rule cell_in_page)
    ultimately show ?thesis unfolding True using ta al(2) tq by (intro install_other_page) auto
  next
    case False
    from that(1) t(3) have "T \<noteq> q" by auto
    with False l1_aligned [OF that(1)] ta al(2) i that(2) show ?thesis
      by (intro install_table_cell) auto
  qed
  show ?thesis
  proof (intro set_eqI iffI)
    fix x assume "x \<in> l0_tables ?m' pd"
    then obtain T j where T: "T \<in> l1_tables ?m' pd" "j < 512"
      "pte_valid (?m' (T + 8 * j))" "x = PTE2PA (?m' (T + 8 * j))"
      by (rule l0_tablesE)
    from T(1) have T1: "T \<in> l1_tables m pd" unfolding l1 .
    show "x \<in> insert q (l0_tables m pd)"
    proof (cases "T = t \<and> j = i")
      case True
      with T link_valid [OF al(2), of "t + 8 * i" m] show ?thesis by simp
    next
      case False
      then have "T \<noteq> t \<or> j \<noteq> i" by simp
      with T old [OF T1 T(2) this] l0_tablesI [of T m pd j] T1 show ?thesis by simp
    qed
  next
    fix x assume "x \<in> insert q (l0_tables m pd)"
    then consider "x = q" | "x \<in> l0_tables m pd" by blast
    then show "x \<in> l0_tables ?m' pd"
    proof cases
      case 1
      have "t \<in> l1_tables ?m' pd" unfolding l1 by (rule t(1))
      with 1 link_valid [OF al(2), of "t + 8 * i" m] i l0_tablesI [of t ?m' pd i]
      show ?thesis by simp
    next
      case 2
      then obtain T j where T: "T \<in> l1_tables m pd" "j < 512"
        "pte_valid (m (T + 8 * j))" "x = PTE2PA (m (T + 8 * j))"
        by (rule l0_tablesE)
      with inv have ne: "T \<noteq> t \<or> j \<noteq> i" by auto
      have "T \<in> l1_tables ?m' pd" unfolding l1 by (rule T(1))
      with T old [OF T(1,2) ne] l0_tablesI [of T ?m' pd j] show ?thesis by simp
    qed
  qed
qed


lemma cell_nonzero:
  assumes "page_aligned t" "t \<noteq> 0" "i < 512"
  shows "t + 8 * i \<noteq> (0 :: u64)"
proof
  assume e: "t + 8 * i = 0"
  have "(t + 8 * i) - t < 4096" using assms(3) by (rule cell_in_page)
  moreover have "page_aligned 0" by (simp add: page_aligned_def)
  moreover have "(t + 8 * i) - 0 < 4096" unfolding e by simp
  ultimately show False using same_page [OF assms(1), of 0 "t + 8 * i"] assms(2) by blast
qed

lemma install_keep:
  assumes "page_aligned T" "page_aligned q" "T \<noteq> q" "j < 512" "T + 8 * j \<noteq> c"
  shows "install c q m (T + 8 * j) = m (T + 8 * j)"
  using assms(1,2,3) cell_in_page [OF assms(4)] assms(5) by (rule install_other_page)

lemma pt_wf_free:
  assumes "pt_wf pd s" "free_mem s = q # qs"
  shows "page_aligned q" "q \<noteq> 0" "q \<noteq> pd" "q \<notin> l1_tables (mem s) pd" "q \<notin> l0_tables (mem s) pd"
    "q \<notin> set qs" "distinct qs"
  using assms by (auto simp: pt_wf_def tables_wf_def)

lemma pt_wf_tables:
  assumes "pt_wf pd s"
  shows "page_aligned pd" "pd \<notin> l1_tables (mem s) pd" "pd \<notin> l0_tables (mem s) pd"
    "l1_tables (mem s) pd \<inter> l0_tables (mem s) pd = {}" "0 \<notin> l0_tables (mem s) pd"
  using assms by (auto simp: pt_wf_def tables_wf_def)

lemma pt_wf_rest:
  assumes "pt_wf pd s" "free_mem s = q # qs" "r \<in> set qs"
  shows "page_aligned r" "r \<noteq> 0" "r \<noteq> pd" "r \<notin> l1_tables (mem s) pd" "r \<notin> l0_tables (mem s) pd"
    "r \<noteq> q"
  using assms by (auto simp: pt_wf_def tables_wf_def)

lemma pt_wfI:
  assumes "page_aligned pd" "pd \<notin> l1_tables (mem s) pd" "pd \<notin> l0_tables (mem s) pd"
    "l1_tables (mem s) pd \<inter> l0_tables (mem s) pd = {}" "0 \<notin> l0_tables (mem s) pd"
    "distinct (free_mem s)"
    "\<And>r. r \<in> set (free_mem s) \<Longrightarrow>
       page_aligned r \<and> r \<noteq> 0 \<and> r \<noteq> pd \<and> r \<notin> l1_tables (mem s) pd \<and> r \<notin> l0_tables (mem s) pd"
  shows "pt_wf pd s"
  using assms unfolding pt_wf_def tables_wf_def by blast

lemma pt_wf_install_root:
  assumes wf: "pt_wf pd s" and f: "free_mem s = q # qs" and i: "i < 512"
    and inv: "\<not> pte_valid (mem s (pd + 8 * i))"
  shows "pt_wf pd (s\<lparr>free_mem := qs, mem := install (pd + 8 * i) q (mem s)\<rparr>)"
proof -
  note T = pt_wf_tables [OF wf] and F = pt_wf_free [OF wf f]
  have l1: "l1_tables (install (pd + 8 * i) q (mem s)) pd = insert q (l1_tables (mem s) pd)"
    using T(1) F(1,3) i inv by (rule l1_install_root)
  have l0: "l0_tables (install (pd + 8 * i) q (mem s)) pd = l0_tables (mem s) pd"
    using T(1) F(1,3) i inv T(2) F(4) by (rule l0_install_root)
  show ?thesis
  proof (rule pt_wfI)
    fix r assume "r \<in> set (free_mem (s\<lparr>free_mem := qs, mem := install (pd + 8 * i) q (mem s)\<rparr>))"
    then have r: "r \<in> set qs" by simp
    from pt_wf_rest [OF wf f r]
    show "page_aligned r \<and> r \<noteq> 0 \<and> r \<noteq> pd \<and>
        r \<notin> l1_tables (mem (s\<lparr>free_mem := qs, mem := install (pd + 8 * i) q (mem s)\<rparr>)) pd \<and>
        r \<notin> l0_tables (mem (s\<lparr>free_mem := qs, mem := install (pd + 8 * i) q (mem s)\<rparr>)) pd"
      by (simp add: l1 l0)
  qed (use T F in \<open>simp_all add: l1 l0\<close>)
qed

lemma pt_wf_install_mid:
  assumes wf: "pt_wf pd s" and f: "free_mem s = q # qs" and i: "i < 512"
    and t: "t \<in> l1_tables (mem s) pd"
    and inv: "\<not> pte_valid (mem s (t + 8 * i))"
  shows "pt_wf pd (s\<lparr>free_mem := qs, mem := install (t + 8 * i) q (mem s)\<rparr>)"
proof -
  note T = pt_wf_tables [OF wf] and F = pt_wf_free [OF wf f]
  have l1: "l1_tables (install (t + 8 * i) q (mem s)) pd = l1_tables (mem s) pd"
    using T(1) F(1,3) t T(2) i by (rule l1_install_mid)
  have l0: "l0_tables (install (t + 8 * i) q (mem s)) pd = insert q (l0_tables (mem s) pd)"
    using T(1) F(1,3) t T(2) F(4) i inv by (rule l0_install_mid)
  show ?thesis
  proof (rule pt_wfI)
    fix r assume "r \<in> set (free_mem (s\<lparr>free_mem := qs, mem := install (t + 8 * i) q (mem s)\<rparr>))"
    then have r: "r \<in> set qs" by simp
    from pt_wf_rest [OF wf f r]
    show "page_aligned r \<and> r \<noteq> 0 \<and> r \<noteq> pd \<and>
        r \<notin> l1_tables (mem (s\<lparr>free_mem := qs, mem := install (t + 8 * i) q (mem s)\<rparr>)) pd \<and>
        r \<notin> l0_tables (mem (s\<lparr>free_mem := qs, mem := install (t + 8 * i) q (mem s)\<rparr>)) pd"
      by (simp add: l1 l0)
  qed (use T F in \<open>auto simp add: l1 l0\<close>)
qed

text \<open>Installing a table keeps every walk that succeeded, and the entry it ends at.\<close>

lemma walk_table_install:
  assumes "walk_table m T level va = Some t" "page_aligned T" "page_aligned q" "T \<noteq> q"
    "\<not> pte_valid (m c)"
  shows "walk_table (install c q m) T level va = Some t"
proof -
  from assms(1) have v: "pte_valid (m (T + 8 * PX level va))"
    by (simp add: walk_table_def split: if_splits)
  with assms(5) have "T + 8 * PX level va \<noteq> c" by auto
  with assms(2,3,4) have "install c q m (T + 8 * PX level va) = m (T + 8 * PX level va)"
    by (intro install_keep PX_less)
  with assms(1) show ?thesis by (simp add: walk_table_def split: if_splits)
qed

lemma walk_table_l1: "walk_table m pd 2 va = Some t \<Longrightarrow> t \<in> l1_tables m pd"
  using l1_tablesI [of "PX 2 va" m pd] by (auto simp: walk_table_def PX_less split: if_splits)

lemma walk_table_l0:
  "t1 \<in> l1_tables m pd \<Longrightarrow> walk_table m t1 1 va = Some t \<Longrightarrow> t \<in> l0_tables m pd"
  using l0_tablesI [of t1 m pd "PX 1 va"] by (auto simp: walk_table_def PX_less split: if_splits)

lemma leaf_cellE:
  assumes "leaf_cell m pd va = Some x"
  obtains t1 t0 where "walk_table m pd 2 va = Some t1" "walk_table m t1 1 va = Some t0"
    "x = t0 + 8 * PX 0 va" "t1 \<in> l1_tables m pd" "t0 \<in> l0_tables m pd"
proof -
  from assms obtain t1 t0 where w: "walk_table m pd 2 va = Some t1" "walk_table m t1 1 va = Some t0"
    "x = t0 + 8 * PX 0 va"
    by (auto simp: leaf_cell_def split: option.splits)
  from w(1) have 1: "t1 \<in> l1_tables m pd" by (rule walk_table_l1)
  from 1 w(2) have "t0 \<in> l0_tables m pd" by (rule walk_table_l0)
  with w 1 that show thesis by blast
qed

lemma leaf_cellI:
  "walk_table m pd 2 va = Some t1 \<Longrightarrow> walk_table m t1 1 va = Some t0 \<Longrightarrow>
   leaf_cell m pd va = Some (t0 + 8 * PX 0 va)"
  by (simp add: leaf_cell_def)

lemma install_frame:
  assumes wf: "pt_wf pd s" and f: "free_mem s = q # qs" and i: "i < 512"
    and c: "T = pd \<or> T \<in> l1_tables (mem s) pd"
    and inv: "\<not> pte_valid (mem s (T + 8 * i))"
    and lc: "leaf_cell (mem s) pd va = Some x"
  shows "leaf_cell (install (T + 8 * i) q (mem s)) pd va = Some x \<and>
         install (T + 8 * i) q (mem s) x = mem s x"
proof -
  note W = pt_wf_tables [OF wf] and F = pt_wf_free [OF wf f]
  from lc obtain t1 t0 where w: "walk_table (mem s) pd 2 va = Some t1"
    "walk_table (mem s) t1 1 va = Some t0" "x = t0 + 8 * PX 0 va"
    "t1 \<in> l1_tables (mem s) pd" "t0 \<in> l0_tables (mem s) pd"
    by (rule leaf_cellE)
  have Ta: "page_aligned T" using c W(1) l1_aligned by blast
  have t0T: "t0 \<noteq> T" using c w(5) W(3,4) by blast
  have "walk_table (install (T + 8 * i) q (mem s)) pd 2 va = Some t1"
    using w(1) W(1) F(1) F(3) [symmetric] inv by (rule walk_table_install)
  moreover have "t1 \<noteq> q" using w(4) F(4) by blast
  then have "walk_table (install (T + 8 * i) q (mem s)) t1 1 va = Some t0"
    using w(2) l1_aligned [OF w(4)] F(1) inv by (intro walk_table_install)
  ultimately have "leaf_cell (install (T + 8 * i) q (mem s)) pd va = Some x"
    unfolding w(3) by (rule leaf_cellI)
  moreover have "t0 + 8 * PX 0 va \<noteq> T + 8 * i"
    using l0_aligned [OF w(5)] Ta t0T i PX_less by (rule cell_other_page)
  moreover have "t0 \<noteq> q" using w(5) F(5) by blast
  ultimately show ?thesis
    unfolding w(3) using l0_aligned [OF w(5)] F(1) PX_less [of 0 va]
    by (simp add: install_keep)
qed


text \<open>The walks that succeed stay, with the content of the entry they reach.\<close>

definition pt_frame :: "addr \<Rightarrow> memory \<Rightarrow> memory \<Rightarrow> bool" where
  "pt_frame pd m m' \<longleftrightarrow>
     (\<forall>va x. leaf_cell m pd va = Some x \<longrightarrow> leaf_cell m' pd va = Some x \<and> m' x = m x)"

lemma pt_frame_refl: "pt_frame pd m m"
  by (simp add: pt_frame_def)

lemma pt_frame_trans: "pt_frame pd m m' \<Longrightarrow> pt_frame pd m' m'' \<Longrightarrow> pt_frame pd m m''"
  unfolding pt_frame_def by metis

lemma walk_table_installed:
  "page_aligned q \<Longrightarrow> walk_table (install (T + 8 * PX level va) q m) T level va = Some q"
  using link_valid [of q "T + 8 * PX level va" m] by (simp add: walk_table_def)

lemma walk_level2:
  assumes wf: "pt_wf pd s"
  obtains (stop) "page_walk_level pd 2 va 1 s = (None, s)" "free_mem s = []"
  | (go) t1 s1 where "page_walk_level pd 2 va 1 s = (Some t1, s1)" "pt_wf pd s1"
      "walk_table (mem s1) pd 2 va = Some t1" "pt_frame pd (mem s) (mem s1)"
proof (cases "pte_valid (mem s (pd + 8 * PX 2 va))")
  case True
  then have "page_walk_level pd 2 va 1 s = (Some (PTE2PA (mem s (pd + 8 * PX 2 va))), s)"
    by (simp add: page_walk_level_alloc)
  moreover from True have "walk_table (mem s) pd 2 va = Some (PTE2PA (mem s (pd + 8 * PX 2 va)))"
    by (simp add: walk_table_def)
  ultimately show thesis using wf pt_frame_refl go by blast
next
  case False
  show thesis
  proof (cases "free_mem s")
    case Nil
    with False have "page_walk_level pd 2 va 1 s = (None, s)"
      by (simp add: page_walk_level_alloc)
    then show thesis using Nil by (rule stop)
  next
    case (Cons q qs)
    note F = pt_wf_free [OF wf Cons]
    let ?s1 = "s\<lparr>free_mem := qs, mem := install (pd + 8 * PX 2 va) q (mem s)\<rparr>"
    from False Cons F(2) have "page_walk_level pd 2 va 1 s = (Some q, ?s1)"
      by (simp add: page_walk_level_alloc)
    moreover have "pt_wf pd ?s1" using wf Cons PX_less False by (rule pt_wf_install_root)
    moreover have "walk_table (mem ?s1) pd 2 va = Some q"
      using F(1) by (simp add: walk_table_installed)
    moreover have "pt_frame pd (mem s) (mem ?s1)"
      unfolding pt_frame_def using install_frame [OF wf Cons PX_less _ False] by simp
    ultimately show thesis by (rule go)
  qed
qed

lemma walk_level1:
  assumes wf: "pt_wf pd s" and t1: "walk_table (mem s) pd 2 va = Some t1"
  obtains (stop) "page_walk_level t1 1 va 1 s = (None, s)" "free_mem s = []"
  | (go) t0 s1 where "page_walk_level t1 1 va 1 s = (Some t0, s1)" "pt_wf pd s1"
      "leaf_cell (mem s1) pd va = Some (t0 + 8 * PX 0 va)" "t0 \<in> l0_tables (mem s1) pd"
      "pt_frame pd (mem s) (mem s1)"
proof (cases "pte_valid (mem s (t1 + 8 * PX 1 va))")
  case True
  let ?t0 = "PTE2PA (mem s (t1 + 8 * PX 1 va))"
  from True have "page_walk_level t1 1 va 1 s = (Some ?t0, s)"
    by (simp add: page_walk_level_alloc)
  moreover from True have w: "walk_table (mem s) t1 1 va = Some ?t0"
    by (simp add: walk_table_def)
  from t1 w have "leaf_cell (mem s) pd va = Some (?t0 + 8 * PX 0 va)" by (rule leaf_cellI)
  moreover have "?t0 \<in> l0_tables (mem s) pd" using walk_table_l1 [OF t1] w by (rule walk_table_l0)
  ultimately show thesis using wf pt_frame_refl go by blast
next
  case False
  show thesis
  proof (cases "free_mem s")
    case Nil
    with False have "page_walk_level t1 1 va 1 s = (None, s)"
      by (simp add: page_walk_level_alloc)
    then show thesis using Nil by (rule stop)
  next
    case (Cons q qs)
    note F = pt_wf_free [OF wf Cons] and W = pt_wf_tables [OF wf]
    have in1: "t1 \<in> l1_tables (mem s) pd" using t1 by (rule walk_table_l1)
    let ?m1 = "install (t1 + 8 * PX 1 va) q (mem s)"
    let ?s1 = "s\<lparr>free_mem := qs, mem := ?m1\<rparr>"
    from False Cons F(2) have "page_walk_level t1 1 va 1 s = (Some q, ?s1)"
      by (simp add: page_walk_level_alloc)
    moreover have "pt_wf pd ?s1" using wf Cons PX_less in1 False by (rule pt_wf_install_mid)
    moreover have w2: "walk_table ?m1 pd 2 va = Some t1"
      using t1 W(1) F(1) F(3) [symmetric] False by (rule walk_table_install)
    have w1: "walk_table ?m1 t1 1 va = Some q" using F(1) by (rule walk_table_installed)
    from w2 w1 have "leaf_cell (mem ?s1) pd va = Some (q + 8 * PX 0 va)"
      by (simp add: leaf_cellI)
    moreover have "q \<in> l0_tables (mem ?s1) pd"
      using walk_table_l0 [OF walk_table_l1 [OF w2] w1] by simp
    moreover have "pt_frame pd (mem s) (mem ?s1)"
      unfolding pt_frame_def using install_frame [OF wf Cons PX_less _ False] in1 by simp
    ultimately show thesis by (rule go)
  qed
qed

lemma page_walk_wf:
  assumes wf: "pt_wf pd s" and va: "va < MAXVA"
  obtains (null) s1 where "page_walk pd va 1 s = Inr (0, s1)" "free_mem s1 = []"
      "pt_wf pd s1" "pt_frame pd (mem s) (mem s1)"
  | (leaf) pte s1 where "page_walk pd va 1 s = Inr (pte, s1)" "pte \<noteq> 0" "pt_wf pd s1"
      "leaf_cell (mem s1) pd va = Some pte" "pt_frame pd (mem s) (mem s1)"
proof -
  from va have nv: "\<not> MAXVA \<le> va" by simp
  from wf show thesis
  proof (cases rule: walk_level2 [where va = va])
    case stop
    then have "page_walk pd va 1 s = Inr (0, s)" using nv by (simp add: page_walk_def)
    then show thesis using stop(2) wf pt_frame_refl by (rule null)
  next
    case (go t1 s1)
    from go(2,3) show thesis
    proof (cases rule: walk_level1)
      case stop
      with go(1) have "page_walk pd va 1 s = Inr (0, s1)" using nv by (simp add: page_walk_def)
      then show thesis using stop(2) go(2) go(4) by (rule null)
    next
      case (go t0 s2)
      with \<open>page_walk_level pd 2 va 1 s = (Some t1, s1)\<close>
      have "page_walk pd va 1 s = Inr (t0 + 8 * PX 0 va, s2)" using nv by (simp add: page_walk_def)
      moreover have "t0 + 8 * PX 0 va \<noteq> 0"
      proof (rule cell_nonzero)
        show "page_aligned t0" using go(4) by (rule l0_aligned)
        show "t0 \<noteq> 0" using go(4) pt_wf_tables(5) [OF go(2)] by blast
      qed (rule PX_less)
      moreover note go(2,3)
      moreover have "pt_frame pd (mem s) (mem s2)"
        using \<open>pt_frame pd (mem s) (mem s1)\<close> go(5) by (rule pt_frame_trans)
      ultimately show thesis by (rule leaf)
    qed
  qed
qed


lemma pte_valid_bit: "pte_valid e \<longleftrightarrow> bit e 0"
  by (simp add: pte_valid_def PTE_V_def and_one_eq bit_0 odd_iff_mod_2_eq_one)

lemma or_valid_right [simp]: "pte_valid (a OR b OR PTE_V)"
  by (simp add: pte_valid_bit bit_simps PTE_V_def)

text \<open>Writing a leaf entry changes no table.\<close>

lemma leaf_write_mem:
  assumes wf: "tables_wf pd m" and lc: "leaf_cell m pd va = Some pte"
  shows "l1_tables (m(pte := v)) pd = l1_tables m pd"
    and "l0_tables (m(pte := v)) pd = l0_tables m pd"
    and "leaf_cell (m(pte := v)) pd va' = leaf_cell m pd va'"
proof -
  from wf have W: "page_aligned pd" "pd \<notin> l1_tables m pd" "pd \<notin> l0_tables m pd"
    "l1_tables m pd \<inter> l0_tables m pd = {}" "0 \<notin> l0_tables m pd"
    by (simp_all add: tables_wf_def)
  from lc obtain t1 t0 where w: "pte = t0 + 8 * PX 0 va" "t0 \<in> l0_tables m pd"
    by (rule leaf_cellE)
  have root: "(m(pte := v)) (pd + 8 * j) = m (pd + 8 * j)" if "j < 512" for j
  proof -
    have "pd \<noteq> t0" using w(2) W(3) by blast
    with W(1) l0_aligned [OF w(2)] have "pd + 8 * j \<noteq> t0 + 8 * PX 0 va"
      using PX_less that by (intro cell_other_page)
    then show ?thesis by (simp add: w(1))
  qed
  have mid: "(m(pte := v)) (T + 8 * j) = m (T + 8 * j)"
    if "T \<in> l1_tables m pd" "j < 512" for T j
  proof -
    have "T \<noteq> t0" using w(2) W(4) that(1) by blast
    with l1_aligned [OF that(1)] l0_aligned [OF w(2)] have "T + 8 * j \<noteq> t0 + 8 * PX 0 va"
      using PX_less that(2) by (intro cell_other_page)
    then show ?thesis by (simp add: w(1))
  qed
  show l1: "l1_tables (m(pte := v)) pd = l1_tables m pd"
    using root by (rule l1_tables_cong)
  show "l0_tables (m(pte := v)) pd = l0_tables m pd"
    using l1 mid by (rule l0_tables_cong)
  have w2: "walk_table (m(pte := v)) pd 2 va' = walk_table m pd 2 va'"
    unfolding walk_table_def using root [OF PX_less] by simp
  show "leaf_cell (m(pte := v)) pd va' = leaf_cell m pd va'"
  proof (cases "walk_table m pd 2 va'")
    case None
    with w2 show ?thesis by (simp add: leaf_cell_def)
  next
    case (Some t)
    then have "t \<in> l1_tables m pd" by (rule walk_table_l1)
    then have "walk_table (m(pte := v)) t 1 va' = walk_table m t 1 va'"
      unfolding walk_table_def using mid [OF _ PX_less] by simp
    with w2 Some show ?thesis by (simp add: leaf_cell_def)
  qed
qed

lemma pt_wf_mem: "pt_wf pd s \<Longrightarrow> tables_wf pd (mem s)"
  by (simp add: pt_wf_def)

lemma leaf_write_tables:
  assumes wf: "pt_wf pd s" and lc: "leaf_cell (mem s) pd va = Some pte"
  shows "l1_tables ((mem s)(pte := v)) pd = l1_tables (mem s) pd"
    and "l0_tables ((mem s)(pte := v)) pd = l0_tables (mem s) pd"
    and "leaf_cell ((mem s)(pte := v)) pd va' = leaf_cell (mem s) pd va'"
  using leaf_write_mem [OF pt_wf_mem [OF wf] lc] by simp_all

lemma tables_wf_leaf_write:
  assumes "tables_wf pd m" "leaf_cell m pd va = Some pte"
  shows "tables_wf pd (m(pte := v))"
  using assms(1) unfolding tables_wf_def by (simp add: leaf_write_mem(1,2) [OF assms])

lemma pt_wf_leaf_write:
  assumes wf: "pt_wf pd s" and lc: "leaf_cell (mem s) pd va = Some pte"
  shows "pt_wf pd (s\<lparr>mem := (mem s)(pte := v)\<rparr>)"
  using wf unfolding pt_wf_def tables_wf_def by (simp add: leaf_write_tables(1,2) [OF wf lc])

text \<open>The mappings in force: a successful walk that ends at a valid entry.\<close>

definition keeps :: "addr \<Rightarrow> memory \<Rightarrow> memory \<Rightarrow> bool" where
  "keeps pd m m' \<longleftrightarrow>
     (\<forall>va x. leaf_cell m pd va = Some x \<and> pte_valid (m x) \<longrightarrow>
        leaf_cell m' pd va = Some x \<and> m' x = m x)"

lemma keeps_refl: "keeps pd m m"
  by (simp add: keeps_def)

lemma keeps_trans: "keeps pd m m' \<Longrightarrow> keeps pd m' m'' \<Longrightarrow> keeps pd m m''"
  unfolding keeps_def by metis

lemma pt_frame_keeps: "pt_frame pd m m' \<Longrightarrow> keeps pd m m'"
  unfolding keeps_def pt_frame_def by blast

lemma keeps_leaf_write:
  assumes wf: "pt_wf pd s" and lc: "leaf_cell (mem s) pd va = Some pte"
    and inv: "\<not> pte_valid (mem s pte)"
  shows "keeps pd (mem s) ((mem s)(pte := v))"
  unfolding keeps_def using inv by (auto simp: leaf_write_tables(3) [OF wf lc])

lemma unat_next_page: "va < MAXVA \<Longrightarrow> unat (va + PGSIZE) = unat va + 4096"
proof -
  assume a: "va < MAXVA"
  have m: "unat MAXVA = 2 ^ 38" by (simp add: MAXVA_def)
  from a have b: "unat va < 2 ^ 38" by (simp add: word_less_nat_alt m)
  have "unat (va + PGSIZE) = (unat va + 4096) mod 2 ^ 64"
    by (simp add: unat_word_ariths PGSIZE_def)
  with b show ?thesis by simp
qed

text \<open>
  What a run of the loop of \<^verbatim>\<open>map_pages\<close> leaves: the entries it wrote, at the pages
  from \<open>first\<close> to \<open>lastp\<close>.
\<close>

definition written :: "addr \<Rightarrow> u64 \<Rightarrow> u64 \<Rightarrow> u64 \<Rightarrow> cint \<Rightarrow> memory \<Rightarrow> bool" where
  "written pd first lastp pa perm m \<longleftrightarrow>
     (\<forall>k. unat first + k * 4096 \<le> unat lastp \<longrightarrow>
        (\<exists>c. leaf_cell m pd (first + of_nat k * PGSIZE) = Some c \<and>
             m c = PA2PTE (pa + of_nat k * PGSIZE) OR scast perm OR PTE_V))"

lemma map_pages_loop_inv:
  assumes "pt_wf pd s" "map_pages_loop pd first lastp pa perm s = Inr (r, s')"
  shows "keeps pd (mem s) (mem s') \<and> pt_wf pd s' \<and>
         ((r = 0 \<and> written pd first lastp pa perm (mem s')) \<or>
          (r = - 1 \<and> free_mem s' = [] \<and> (\<exists>va0 s0. page_walk pd va0 1 s0 = Inr (0, s'))))"
  using assms
proof (induction pd first lastp pa perm s rule: map_pages_loop.induct)
  case (1 pd first lastp pa perm s)
  show ?case
  proof (cases "first \<le> lastp")
    case False
    with "1.prems"(2) have e: "r = 0" "s' = s" by (simp_all add: map_pages_loop.simps [of pd first])
    from False have "\<not> unat first + k * 4096 \<le> unat lastp" for k
      by (simp add: word_le_nat_alt)
    with e "1.prems"(1) show ?thesis by (simp add: keeps_refl written_def)
  next
    case True
    from True "1.prems"(2) obtain pte0 s0 where pw0: "page_walk pd first 1 s = Inr (pte0, s0)"
      by (subst (asm) map_pages_loop.simps) (auto split: sum.splits)
    then have below: "first < MAXVA" by (rule page_walk_Inr_below)
    from "1.prems"(1) below show ?thesis
    proof (cases rule: page_walk_wf)
      case (null s1)
      with True "1.prems"(2) have "r = - 1" "s' = s1"
        by (simp_all add: map_pages_loop.simps [of pd first])
      with null pt_frame_keeps [OF null(4)] show ?thesis by blast
    next
      case (leaf pte s1)
      let ?v = "PA2PTE pa OR scast perm OR PTE_V"
      let ?s2 = "s1\<lparr>mem := (mem s1)(pte := ?v)\<rparr>"
      from True leaf(1,2) "1.prems"(2) have inv: "\<not> pte_valid (mem s1 pte)"
        by (subst (asm) map_pages_loop.simps) (auto simp: pte_valid_def split: if_splits)
      then have nz: "\<not> mem s1 pte AND PTE_V \<noteq> 0" by (simp add: pte_valid_def)
      from inv True leaf(1,2) "1.prems"(2)
      have rec: "map_pages_loop pd (first + PGSIZE) lastp (pa + PGSIZE) perm ?s2 = Inr (r, s')"
        by (subst (asm) map_pages_loop.simps) (simp add: pte_valid_def)
      have wf2: "pt_wf pd ?s2" using leaf(3,4) by (rule pt_wf_leaf_write)
      have k12: "keeps pd (mem s) (mem ?s2)"
        using pt_frame_keeps [OF leaf(5)] keeps_leaf_write [OF leaf(3,4) inv, of ?v]
        by (simp add: keeps_trans)
      have IH: "keeps pd (mem ?s2) (mem s') \<and> pt_wf pd s' \<and>
         ((r = 0 \<and> written pd (first + PGSIZE) lastp (pa + PGSIZE) perm (mem s')) \<or>
          (r = - 1 \<and> free_mem s' = [] \<and> (\<exists>va0 s0. page_walk pd va0 1 s0 = Inr (0, s'))))"
        by (rule "1.IH" [OF True leaf(1) refl leaf(2) nz wf2 rec])
      then have k2: "keeps pd (mem ?s2) (mem s')" and wf': "pt_wf pd s'" by simp_all
      have k: "keeps pd (mem s) (mem s')" using k12 k2 by (rule keeps_trans)
      from IH have "(r = 0 \<and> written pd (first + PGSIZE) lastp (pa + PGSIZE) perm (mem s')) \<or>
          (r = - 1 \<and> free_mem s' = [] \<and> (\<exists>va0 s0. page_walk pd va0 1 s0 = Inr (0, s')))"
        by simp
      then show ?thesis
      proof
        assume a: "r = 0 \<and> written pd (first + PGSIZE) lastp (pa + PGSIZE) perm (mem s')"
        then have wr: "written pd (first + PGSIZE) lastp (pa + PGSIZE) perm (mem s')" by simp
        have here: "leaf_cell (mem ?s2) pd first = Some pte \<and> pte_valid (mem ?s2 pte)"
          using leaf_write_tables(3) [OF leaf(3,4), of ?v first] leaf(4) by simp
        with k2 have first: "leaf_cell (mem s') pd first = Some pte \<and> mem s' pte = ?v"
          unfolding keeps_def by fastforce
        have "written pd first lastp pa perm (mem s')"
          unfolding written_def
        proof (intro allI impI)
          fix k assume k: "unat first + k * 4096 \<le> unat lastp"
          show "\<exists>c. leaf_cell (mem s') pd (first + of_nat k * PGSIZE) = Some c \<and>
               mem s' c = PA2PTE (pa + of_nat k * PGSIZE) OR scast perm OR PTE_V"
          proof (cases k)
            case 0
            with first show ?thesis by simp
          next
            case (Suc j)
            with k have "unat (first + PGSIZE) + j * 4096 \<le> unat lastp"
              by (simp add: unat_next_page [OF below])
            with wr obtain c where
              "leaf_cell (mem s') pd (first + PGSIZE + of_nat j * PGSIZE) = Some c \<and>
               mem s' c = PA2PTE (pa + PGSIZE + of_nat j * PGSIZE) OR scast perm OR PTE_V"
              unfolding written_def by blast
            moreover have "first + PGSIZE + of_nat j * PGSIZE = first + of_nat k * PGSIZE"
              "pa + PGSIZE + of_nat j * PGSIZE = pa + of_nat k * PGSIZE"
              by (simp_all add: Suc algebra_simps)
            ultimately show ?thesis by auto
          qed
        qed
        with a k wf' show ?thesis by simp
      next
        assume "r = - 1 \<and> free_mem s' = [] \<and> (\<exists>va0 s0. page_walk pd va0 1 s0 = Inr (0, s'))"
        with k wf' show ?thesis by simp
      qed
    qed
  qed
qed

text \<open>The range of \<^verbatim>\<open>map_pages\<close> for an aligned start and a whole number of pages.\<close>

lemma unat_page_off:
  assumes "unat va + k * 4096 < 2 ^ 64"
  shows "unat (va + of_nat k * PGSIZE) = unat va + k * 4096"
proof -
  from assms have k: "k * 4096 < 2 ^ 64" by simp
  have "unat (of_nat k * PGSIZE :: u64) = k * 4096 mod 2 ^ 64"
    by (simp add: unat_word_ariths PGSIZE_def unat_of_nat mod_mult_left_eq)
  with k have "unat (of_nat k * PGSIZE :: u64) = k * 4096" by simp
  then have "unat (va + of_nat k * PGSIZE) = (unat va + k * 4096) mod 2 ^ 64"
    by (simp add: unat_word_ariths)
  with assms show ?thesis by simp
qed

lemma aligned_ROUNDDOWN: "page_aligned va \<Longrightarrow> ROUNDDOWN va PGSIZE = va"
proof -
  assume "page_aligned va"
  then have "unat (ROUNDDOWN va PGSIZE) = unat va"
    unfolding unat_ROUNDDOWN page_aligned_def by (simp add: mod_0_imp_dvd)
  then show ?thesis by (simp add: word_unat_eq_iff)
qed

lemma range_last:
  assumes al: "page_aligned va" and n: "0 < n" and b: "unat va + n * 4096 \<le> 2 ^ 38"
  shows "unat (ROUNDDOWN (va + of_nat n * PGSIZE - 1) PGSIZE) = unat va + (n - 1) * 4096"
proof -
  from b have lt: "unat va + n * 4096 < 2 ^ 64" by simp
  have e: "unat (va + of_nat n * PGSIZE) = unat va + n * 4096" using lt by (rule unat_page_off)
  from n have pos: "1 \<le> unat va + n * 4096" by simp
  have "unat (va + of_nat n * PGSIZE - 1) = unat va + n * 4096 - 1"
    using pos e by (simp add: unat_sub_if')
  then have r: "unat (ROUNDDOWN (va + of_nat n * PGSIZE - 1) PGSIZE) =
      (unat va + n * 4096 - 1) div 4096 * 4096"
    by (simp add: unat_ROUNDDOWN)
  from al obtain q where q: "unat va = 4096 * q"
    unfolding page_aligned_def by (auto simp: mod_eq_0_iff_dvd)
  from n obtain j where j: "n = Suc j" by (cases n) auto
  have "(unat va + n * 4096 - 1) = (q + j) * 4096 + 4095" by (simp add: q j)
  then have "(unat va + n * 4096 - 1) div 4096 = q + j" by simp
  with r show ?thesis by (simp add: q j)
qed

lemma prot_to_type_cases:
  "prot_to_type prot user \<in> {2, 18, 66, 82, 72, 88, 74, 90, 132, 148, 198, 214, 204, 220, 206, 222}"
  by (simp add: prot_to_type_def Let_def PTE_R_def PTE_W_def PTE_X_def PTE_A_def PTE_D_def
      PTE_U_def)


lemma page_aligned_add:
  assumes "page_aligned a"
  shows "page_aligned (a + of_nat k * PGSIZE)"
proof -
  have d: "(4096 :: nat) dvd 2 ^ 64" by (simp add: power_le_dvd [of 2 12 _ 64, simplified])
  have x: "of_nat k * PGSIZE = (of_nat (k * 4096) :: u64)" by (simp add: PGSIZE_def)
  have "unat (of_nat (k * 4096) :: u64) mod 4096 = (k * 4096) mod 2 ^ 64 mod 4096"
    by (simp only: unat_of_nat) simp
  also have "\<dots> = (k * 4096) mod 4096" using d by (rule mod_mod_cancel)
  finally have 1: "unat (of_nat (k * 4096) :: u64) mod 4096 = 0" by simp
  have "unat (a + of_nat (k * 4096)) mod 4096 =
      (unat a + unat (of_nat (k * 4096) :: u64)) mod 2 ^ 64 mod 4096"
    by (simp only: unat_word_ariths) simp
  also have "\<dots> = (unat a + unat (of_nat (k * 4096) :: u64)) mod 4096"
    using d by (rule mod_mod_cancel)
  also have "\<dots> = 0" using assms 1 unfolding page_aligned_def by (simp add: mod_add_eq [symmetric])
  finally show ?thesis unfolding x page_aligned_def .
qed

lemma scast_perm: "scast (ucast (prot_to_type prot user) :: cint) = prot_to_type prot user"
  using prot_to_type_cases [of prot user] by auto

lemma prot_to_type_small: "prot_to_type prot user OR PTE_V < 1024"
  using prot_to_type_cases [of prot user] by (auto simp: PTE_V_def)

lemma prot_to_type_rw:
  "(prot_to_type prot user AND PTE_R = 0 \<and> prot_to_type prot user AND PTE_W = 0) \<longleftrightarrow>
   (prot AND PROT_READ = 0 \<and> prot AND PROT_WRITE = 0 \<and> prot AND PROT_EXEC \<noteq> 0)"
  by (simp add: prot_to_type_def Let_def PTE_R_def PTE_W_def PTE_X_def PTE_A_def PTE_D_def
      PTE_U_def)

lemma entry_bits:
  "(PA2PTE q OR p OR PTE_V) AND PTE_R = p AND PTE_R"
  "(PA2PTE q OR p OR PTE_V) AND PTE_W = p AND PTE_W"
  "(PA2PTE q OR p OR PTE_V) AND PTE_V \<noteq> 0"
proof -
  have b: "bit (4 :: int) n \<longleftrightarrow> n = 2" for n
  proof -
    have "(4 :: int) = push_bit 2 1" by simp
    then have "bit (4 :: int) n \<longleftrightarrow> bit (push_bit 2 (1 :: int)) n" by (rule arg_cong)
    also have "\<dots> \<longleftrightarrow> n = 2"
      by (simp only: bit_push_bit_iff bit_1_iff) (auto simp: possible_bit_def)
    finally show ?thesis .
  qed
  show "(PA2PTE q OR p OR PTE_V) AND PTE_R = p AND PTE_R"
    by (rule bit_word_eqI) (auto simp: bit_simps PA2PTE_def PTE_V_def PTE_R_def PTE_W_def b)
  show "(PA2PTE q OR p OR PTE_V) AND PTE_W = p AND PTE_W"
    by (rule bit_word_eqI) (auto simp: bit_simps PA2PTE_def PTE_V_def PTE_R_def PTE_W_def b)
  show "(PA2PTE q OR p OR PTE_V) AND PTE_V \<noteq> 0"
    using or_valid_right [of "PA2PTE q" p] by (simp add: pte_valid_def)
qed

text \<open>
  Claim C4, as amended.  On a well-formed state, for page-aligned \<open>va\<close> and \<open>pa\<close>, a
  size of \<open>n > 0\<close> whole pages that ends at or below MAXVA, and the permission bits of
  \<^verbatim>\<open>prot_to_type\<close>: after \<^verbatim>\<open>map_pages\<close> has returned 0, at every page \<open>k < n\<close> of the range
  \<^verbatim>\<open>page_walk\<close> finds an entry, the entry is the page number of \<open>pa + k * PGSIZE\<close> with
  exactly the bits of \<^verbatim>\<open>prot_to_type\<close> and PTE_V, and \<^verbatim>\<open>lookup_pa\<close> returns
  \<open>pa + k * PGSIZE\<close>, except for an execute-only permission set (PROT_EXEC without
  PROT_READ and PROT_WRITE), where it returns 0.  The state is well formed again.
\<close>

theorem map_pages_then_lookup:
  assumes wf: "pt_wf pd s" and al: "page_aligned va" "page_aligned pa"
    and n: "0 < n" and b: "unat va + n * 4096 \<le> 2 ^ 38"
    and m: "map_pages pd va (of_nat n * PGSIZE) pa (ucast (prot_to_type prot user)) s = Inr (0, s')"
    and k: "k < n"
  shows "pt_wf pd s' \<and>
         (\<exists>c. page_walk pd (va + of_nat k * PGSIZE) 0 s' = Inr (c, s') \<and> c \<noteq> 0 \<and>
           mem s' c = PA2PTE (pa + of_nat k * PGSIZE) OR prot_to_type prot user OR PTE_V \<and>
           lookup_pa pd (va + of_nat k * PGSIZE) s' =
             Inr (if prot AND PROT_READ = 0 \<and> prot AND PROT_WRITE = 0 \<and> prot AND PROT_EXEC \<noteq> 0
                  then 0 else pa + of_nat k * PGSIZE))"
proof -
  let ?lastp = "ROUNDDOWN (va + of_nat n * PGSIZE - 1) PGSIZE"
  let ?perm = "ucast (prot_to_type prot user) :: cint"
  let ?va = "va + of_nat k * PGSIZE" and ?pa = "pa + of_nat k * PGSIZE"
  let ?e = "PA2PTE ?pa OR prot_to_type prot user OR PTE_V"
  from m have "map_pages_loop pd va ?lastp pa ?perm s = Inr (0, s')"
    by (simp add: map_pages_def aligned_ROUNDDOWN [OF al(1)])
  from map_pages_loop_inv [OF wf this]
  have wf': "pt_wf pd s'" and wr: "written pd va ?lastp pa ?perm (mem s')" by simp_all
  have "unat va + k * 4096 \<le> unat ?lastp"
    using k by (simp add: range_last [OF al(1) n b])
  with wr obtain c where c: "leaf_cell (mem s') pd ?va = Some c" "mem s' c = ?e"
    unfolding written_def scast_perm by blast
  from c(1) obtain t1 t0 where t: "c = t0 + 8 * PX 0 ?va" "t0 \<in> l0_tables (mem s') pd"
    by (rule leaf_cellE)
  have nz: "c \<noteq> 0" unfolding t(1)
  proof (rule cell_nonzero)
    show "page_aligned t0" using t(2) by (rule l0_aligned)
    show "t0 \<noteq> 0" using t(2) pt_wf_tables(5) [OF wf'] by blast
  qed (rule PX_less)
  from k b have kb: "unat va + k * 4096 < 2 ^ 38" by simp
  then have "unat va + k * 4096 < 2 ^ 64" by simp
  then have "unat ?va = unat va + k * 4096" by (rule unat_page_off)
  with kb have below: "?va < MAXVA" by (simp add: word_less_nat_alt MAXVA_unat)
  then have nb: "\<not> MAXVA \<le> ?va" by simp
  have pw: "page_walk pd ?va 0 s' = Inr (c, s')"
    using page_walk_read [OF below, of pd s'] c(1) by simp
  have "page_aligned ?pa" using al(2) by (rule page_aligned_add)
  then have rt: "PTE2PA ?e = ?pa" using prot_to_type_small by (rule PTE2PA_PA2PTE)
  have "lookup_pa pd ?va s' =
      Inr (if prot_to_type prot user AND PTE_R = 0 \<and> prot_to_type prot user AND PTE_W = 0
           then 0 else ?pa)"
    using nb nz by (simp add: lookup_pa_def pw c(2) entry_bits rt)
  with pw nz c(2) wf' show ?thesis unfolding prot_to_type_rw by blast
qed


text \<open>A page of the range that is mapped already: the loop cannot end with 0.\<close>

lemma map_pages_loop_remap:
  assumes "pt_wf pd s" "leaf_cell (mem s) pd (first + of_nat k * PGSIZE) = Some c"
    "pte_valid (mem s c)" "unat first + k * 4096 \<le> unat lastp"
    "map_pages_loop pd first lastp pa perm s = Inr (r, s')"
  shows "r \<noteq> 0"
  using assms
proof (induction pd first lastp pa perm s arbitrary: k rule: map_pages_loop.induct)
  case (1 pd first lastp pa perm s)
  from "1.prems"(4) have True: "first \<le> lastp" by (simp add: word_le_nat_alt)
  from True "1.prems"(5) obtain pte0 s0 where pw0: "page_walk pd first 1 s = Inr (pte0, s0)"
    by (subst (asm) map_pages_loop.simps) (auto split: sum.splits)
  then have below: "first < MAXVA" by (rule page_walk_Inr_below)
  from "1.prems"(1) below show ?case
  proof (cases rule: page_walk_wf)
    case (null s1)
    with True "1.prems"(5) have "r = - 1"
      by (simp add: map_pages_loop.simps [of pd first])
    then show ?thesis by simp
  next
    case (leaf pte s1)
    let ?v = "PA2PTE pa OR scast perm OR PTE_V"
    let ?s2 = "s1\<lparr>mem := (mem s1)(pte := ?v)\<rparr>"
    from True leaf(1,2) "1.prems"(5) have inv: "\<not> pte_valid (mem s1 pte)"
      by (subst (asm) map_pages_loop.simps) (auto simp: pte_valid_def split: if_splits)
    then have nz: "\<not> mem s1 pte AND PTE_V \<noteq> 0" by (simp add: pte_valid_def)
    from inv True leaf(1,2) "1.prems"(5)
    have rec: "map_pages_loop pd (first + PGSIZE) lastp (pa + PGSIZE) perm ?s2 = Inr (r, s')"
      by (subst (asm) map_pages_loop.simps) (simp add: pte_valid_def)
    have wf2: "pt_wf pd ?s2" using leaf(3,4) by (rule pt_wf_leaf_write)
    from leaf(5) "1.prems"(2)
    have lc1: "leaf_cell (mem s1) pd (first + of_nat k * PGSIZE) = Some c" and c1: "mem s1 c = mem s c"
      unfolding pt_frame_def by blast+
    from c1 "1.prems"(3) have v1: "pte_valid (mem s1 c)" by simp
    with inv have ne: "c \<noteq> pte" by auto
    show ?thesis
    proof (cases k)
      case 0
      with lc1 leaf(4) ne show ?thesis by simp
    next
      case (Suc j)
      have e: "first + PGSIZE + of_nat j * PGSIZE = first + of_nat k * PGSIZE"
        by (simp add: Suc algebra_simps)
      have lc2: "leaf_cell (mem ?s2) pd (first + PGSIZE + of_nat j * PGSIZE) = Some c"
        unfolding e using leaf_write_tables(3) [OF leaf(3,4), of ?v] lc1 by simp
      have v2: "pte_valid (mem ?s2 c)" using v1 ne by simp
      have bnd: "unat (first + PGSIZE) + j * 4096 \<le> unat lastp"
        using "1.prems"(4) by (simp add: Suc unat_next_page [OF below])
      show ?thesis
        by (rule "1.IH" [OF True leaf(1) refl leaf(2) nz wf2 lc2 v2 bnd rec])
    qed
  qed
qed


lemma map_pages_loop_panics:
  "map_pages_loop pd first lastp pa perm s = Inl e \<Longrightarrow> e = Panic_map_pages \<or> e = Panic_page_walk"
proof (induction pd first lastp pa perm s rule: map_pages_loop.induct)
  case (1 pd first lastp pa perm s)
  show ?case
  proof (cases "first \<le> lastp")
    case False
    with "1.prems" show ?thesis by (simp add: map_pages_loop.simps [of pd first])
  next
    case True
    show ?thesis
    proof (cases "page_walk pd first 1 s")
      case (Inl e')
      then have "e' = Panic_page_walk"
        by (auto simp: page_walk_def split: if_splits prod.splits option.splits)
      with Inl True "1.prems" show ?thesis by (simp add: map_pages_loop.simps [of pd first])
    next
      case (Inr p)
      obtain pte s1 where p: "p = (pte, s1)" by (cases p)
      show ?thesis
      proof (cases "pte = 0 \<or> mem s1 pte AND PTE_V \<noteq> 0")
        case True
        with Inr p \<open>first \<le> lastp\<close> "1.prems" show ?thesis
          by (auto simp: map_pages_loop.simps [of pd first] split: if_splits)
      next
        case False
        then have a: "pte \<noteq> 0" "\<not> mem s1 pte AND PTE_V \<noteq> 0" by simp_all
        from Inr p True a "1.prems"
        have "map_pages_loop pd (first + PGSIZE) lastp (pa + PGSIZE) perm
            (s1\<lparr>mem := (mem s1)(pte := PA2PTE pa OR scast perm OR PTE_V)\<rparr>) = Inl e"
          by (subst (asm) map_pages_loop.simps) simp
        with "1.IH" [OF True Inr [unfolded p] refl a] show ?thesis by blast
      qed
    qed
  qed
qed

lemma page_walk_leaf:
  assumes "page_walk pd va 0 s = Inr (c, s2)" "c \<noteq> 0"
  shows "leaf_cell (mem s) pd va = Some c" "s2 = s" "va < MAXVA"
proof -
  from assms(1) show b: "va < MAXVA" by (rule page_walk_Inr_below)
  from page_walk_read [OF b, of pd s] assms
  show "leaf_cell (mem s) pd va = Some c" "s2 = s" by (auto split: option.splits)
qed

text \<open>
  Unmapping a range whose leaf entries exist.  \<open>entry_of\<close> is the pointer that
  \<^verbatim>\<open>page_walk(page_dir, va, 0)\<close> returns; \<open>clear_valid\<close> clears the validity bit of the
  cells of a set.
\<close>

definition entry_of :: "addr \<Rightarrow> u64 \<Rightarrow> kstate \<Rightarrow> addr" where
  "entry_of pd va s = (case page_walk pd va 0 s of Inl e \<Rightarrow> 0 | Inr (c, s') \<Rightarrow> c)"

definition clear_valid :: "addr set \<Rightarrow> memory \<Rightarrow> memory" where
  "clear_valid C m = (\<lambda>a. if a \<in> C then m a AND NOT PTE_V else m a)"

lemma clear_valid_empty: "clear_valid {} m = m"
  by (simp add: clear_valid_def)

lemma clear_valid_upd: "clear_valid C (m(c := m c AND NOT PTE_V)) = clear_valid (insert c C) m"
  by (rule ext) (simp add: clear_valid_def word_bw_assocs)

lemma entry_of_leaf:
  "entry_of pd va s =
     (if va < MAXVA then (case leaf_cell (mem s) pd va of None \<Rightarrow> 0 | Some c \<Rightarrow> c) else 0)"
proof (cases "va < MAXVA")
  case True
  then show ?thesis by (simp add: entry_of_def page_walk_read)
next
  case False
  then show ?thesis by (auto simp: entry_of_def page_walk_def)
qed

lemma entry_of_mem:
  "(\<And>va'. leaf_cell (mem s') pd va' = leaf_cell (mem s) pd va') \<Longrightarrow>
   entry_of pd va s' = entry_of pd va s"
  by (simp add: entry_of_leaf)

lemma page_walk_present:
  assumes "va < MAXVA" "leaf_cell (mem s) pd va = Some c"
  shows "page_walk pd va alloc s = Inr (c, s)"
proof -
  from assms(2) obtain t1 t0 where w: "walk_table (mem s) pd 2 va = Some t1"
    "walk_table (mem s) t1 1 va = Some t0" "c = t0 + 8 * PX 0 va"
    by (rule leaf_cellE)
  from w(1) have 2: "page_walk_level pd 2 va alloc s = (Some t1, s)"
    by (auto simp: page_walk_level_def walk_table_def pte_valid_def Let_def split: if_splits)
  from w(2) have 1: "page_walk_level t1 1 va alloc s = (Some t0, s)"
    by (auto simp: page_walk_level_def walk_table_def pte_valid_def Let_def split: if_splits)
  from assms(1) have "\<not> MAXVA \<le> va" by simp
  then show ?thesis using 1 by (simp add: page_walk_def 2 w(3))
qed

lemma leaf_nonzero:
  assumes "tables_wf pd m" "leaf_cell m pd va = Some c"
  shows "c \<noteq> 0"
proof -
  from assms(2) obtain t1 t0 where t: "c = t0 + 8 * PX 0 va" "t0 \<in> l0_tables m pd"
    by (rule leaf_cellE)
  show ?thesis unfolding t(1)
  proof (rule cell_nonzero)
    show "page_aligned t0" using t(2) by (rule l0_aligned)
    show "t0 \<noteq> 0" using t(2) assms(1) unfolding tables_wf_def by blast
  qed (rule PX_less)
qed

lemma clear_valid_tables:
  assumes wf: "tables_wf pd m" and C: "\<And>c. c \<in> C \<Longrightarrow> \<exists>va. leaf_cell m pd va = Some c"
  shows "tables_wf pd (clear_valid C m)"
proof -
  from wf have W: "page_aligned pd" "pd \<notin> l1_tables m pd" "pd \<notin> l0_tables m pd"
    "l1_tables m pd \<inter> l0_tables m pd = {}" "0 \<notin> l0_tables m pd"
    by (simp_all add: tables_wf_def)
  have root: "clear_valid C m (pd + 8 * j) = m (pd + 8 * j)" if "j < 512" for j
  proof -
    have "pd + 8 * j \<notin> C"
    proof
      assume "pd + 8 * j \<in> C"
      from C [OF this] obtain va where "leaf_cell m pd va = Some (pd + 8 * j)" by blast
      then obtain t1 t0 where w: "pd + 8 * j = t0 + 8 * PX 0 va" "t0 \<in> l0_tables m pd"
        by (rule leaf_cellE)
      have "pd \<noteq> t0" using w(2) W(3) by blast
      with W(1) l0_aligned [OF w(2)] have "pd + 8 * j \<noteq> t0 + 8 * PX 0 va"
        using PX_less that by (intro cell_other_page)
      with w(1) show False by simp
    qed
    then show ?thesis by (simp add: clear_valid_def)
  qed
  have mid: "clear_valid C m (T + 8 * j) = m (T + 8 * j)"
    if "T \<in> l1_tables m pd" "j < 512" for T j
  proof -
    have "T + 8 * j \<notin> C"
    proof
      assume "T + 8 * j \<in> C"
      from C [OF this] obtain va where "leaf_cell m pd va = Some (T + 8 * j)" by blast
      then obtain t1 t0 where w: "T + 8 * j = t0 + 8 * PX 0 va" "t0 \<in> l0_tables m pd"
        by (rule leaf_cellE)
      have "T \<noteq> t0" using w(2) W(4) that(1) by blast
      with l1_aligned [OF that(1)] l0_aligned [OF w(2)] have "T + 8 * j \<noteq> t0 + 8 * PX 0 va"
        using PX_less that(2) by (intro cell_other_page)
      with w(1) show False by simp
    qed
    then show ?thesis by (simp add: clear_valid_def)
  qed
  have l1: "l1_tables (clear_valid C m) pd = l1_tables m pd"
    using root by (rule l1_tables_cong)
  have l0: "l0_tables (clear_valid C m) pd = l0_tables m pd"
    using l1 mid by (rule l0_tables_cong)
  show ?thesis using wf unfolding tables_wf_def l1 l0 .
qed

lemma unmap_loop_range:
  assumes "tables_wf pd (mem s)"
    and "unat first + n * 4096 = unat lastp + 4096" and "unat lastp + 4096 \<le> 2 ^ 38"
    and "\<forall>k<n. entry_of pd (first + of_nat k * PGSIZE) s \<noteq> 0"
  shows "user_vm_unmap_loop pd first lastp s =
     Inr (s\<lparr>mem := clear_valid ((\<lambda>k. entry_of pd (first + of_nat k * PGSIZE) s) ` {..<n}) (mem s),
           free_mem := rev (map (\<lambda>k. PTE2PA (mem s (entry_of pd (first + of_nat k * PGSIZE) s)))
                              [0..<n]) @ free_mem s\<rparr>)"
  using assms
proof (induction n arbitrary: first s)
  case 0
  then have "\<not> first \<le> lastp" by (simp add: word_le_nat_alt)
  then show ?case by (simp add: user_vm_unmap_loop.simps [of pd first] clear_valid_empty)
next
  case (Suc n)
  let ?E = "\<lambda>k. entry_of pd (first + of_nat k * PGSIZE) s"
  from Suc.prems(2) have le: "first \<le> lastp" by (simp add: word_le_nat_alt)
  from Suc.prems(2,3) have "unat first < 2 ^ 38" by simp
  then have below: "first < MAXVA" by (simp add: word_less_nat_alt MAXVA_unat)
  from Suc.prems(4) have "?E 0 \<noteq> 0" by blast
  then have e0: "entry_of pd first s \<noteq> 0" by simp
  then obtain c0 where lc: "leaf_cell (mem s) pd first = Some c0" and c0: "entry_of pd first s = c0"
    using below by (auto simp: entry_of_leaf split: option.splits)
  from e0 c0 have nz: "c0 \<noteq> 0" by simp
  have pw: "page_walk pd first 1 s = Inr (c0, s)" using below lc by (rule page_walk_present)
  let ?m2 = "(mem s)(c0 := mem s c0 AND NOT PTE_V)"
  let ?s2 = "s\<lparr>mem := ?m2, free_mem := PTE2PA (mem s c0) # free_mem s\<rparr>"
  have step: "user_vm_unmap_loop pd first lastp s = user_vm_unmap_loop pd (first + PGSIZE) lastp ?s2"
    using le pw nz
    by (subst user_vm_unmap_loop.simps) (simp add: Let_def free_page_def PTE2PA_clear_V)
  have tw2: "tables_wf pd (mem ?s2)"
    using tables_wf_leaf_write [OF Suc.prems(1) lc] by simp
  have same: "entry_of pd va' ?s2 = entry_of pd va' s" for va'
    by (rule entry_of_mem) (simp add: leaf_write_mem(3) [OF Suc.prems(1) lc])
  have sh: "first + PGSIZE + of_nat k * PGSIZE = first + of_nat (Suc k) * PGSIZE" for k
    by (simp add: algebra_simps)
  have b2: "unat (first + PGSIZE) + n * 4096 = unat lastp + 4096"
    using Suc.prems(2) by (simp add: unat_next_page [OF below])
  have ent2: "\<forall>k<n. entry_of pd (first + PGSIZE + of_nat k * PGSIZE) ?s2 \<noteq> 0"
    unfolding same sh using Suc.prems(4) by auto
  define E1 where "E1 = (\<lambda>k. ?E (Suc k))"
  define Q1 where "Q1 = (\<lambda>k. PTE2PA (mem s (?E (Suc k))))"
  have E2: "(\<lambda>k. entry_of pd (first + PGSIZE + of_nat k * PGSIZE) ?s2) = E1"
    unfolding E1_def by (rule ext) (simp only: same sh)
  have P2: "(\<lambda>k. PTE2PA (mem ?s2 (entry_of pd (first + PGSIZE + of_nat k * PGSIZE) ?s2))) = Q1"
  proof (rule ext)
    fix k
    have "PTE2PA (mem ?s2 (?E (Suc k))) = PTE2PA (mem s (?E (Suc k)))"
      by (simp add: PTE2PA_clear_V)
    then show "PTE2PA (mem ?s2 (entry_of pd (first + PGSIZE + of_nat k * PGSIZE) ?s2)) = Q1 k"
      unfolding Q1_def by (simp only: same sh)
  qed
  have set: "?E ` {..<Suc n} = insert c0 (E1 ` {..<n})"
    unfolding lessThan_Suc_eq_insert_0 E1_def using c0 by (simp add: image_image)
  have lst: "map (\<lambda>k. PTE2PA (mem s (?E k))) [0..<Suc n] = PTE2PA (mem s c0) # map Q1 [0..<n]"
    unfolding map_upt_Suc Q1_def using c0 by simp
  have "user_vm_unmap_loop pd (first + PGSIZE) lastp ?s2 =
     Inr (?s2\<lparr>mem := clear_valid ((\<lambda>k. entry_of pd (first + PGSIZE + of_nat k * PGSIZE) ?s2) ` {..<n})
                        (mem ?s2),
           free_mem := rev (map (\<lambda>k. PTE2PA (mem ?s2 (entry_of pd (first + PGSIZE + of_nat k * PGSIZE) ?s2)))
                              [0..<n]) @ free_mem ?s2\<rparr>)"
    by (rule Suc.IH [OF tw2 b2 Suc.prems(3) ent2])
  also have "\<dots> = Inr (?s2\<lparr>mem := clear_valid (E1 ` {..<n}) (mem ?s2),
           free_mem := rev (map Q1 [0..<n]) @ free_mem ?s2\<rparr>)"
    unfolding E2 P2 ..
  also have "\<dots> = Inr (s\<lparr>mem := clear_valid (?E ` {..<Suc n}) (mem s),
           free_mem := rev (map (\<lambda>k. PTE2PA (mem s (?E k))) [0..<Suc n]) @ free_mem s\<rparr>)"
    unfolding set lst by (simp add: clear_valid_upd)
  finally show ?case unfolding step .
qed




text \<open>
  Two runs of \<^verbatim>\<open>map_pages\<close> from the boot state, on the empty root table: one page at
  0x400000 for user execute-only, and two pages at 0x400000 for user read-write.  Each
  takes the pages 0x80100000 and 0x80101000 for the two tables.
\<close>

definition exec_state :: kstate where
  "exec_state = boot
     \<lparr>free_mem := [0x80102000, 0x80103000, 0x80104000, 0x80105000, 0x80106000,
                   0x80107000, 0x80108000, 0x80109000],
      mem := (memset0 0x80101000 4096 ((\<lambda>_. 0)(0x80080000 := 0x20040001)))
             (0x80100010 := 0x20040401, 0x80101000 := 0x20080059)\<rparr>"

definition rw_state :: kstate where
  "rw_state = boot
     \<lparr>free_mem := [0x80102000, 0x80103000, 0x80104000, 0x80105000, 0x80106000,
                   0x80107000, 0x80108000, 0x80109000],
      mem := (memset0 0x80101000 4096 ((\<lambda>_. 0)(0x80080000 := 0x20040001)))
             (0x80100010 := 0x20040401, 0x80101000 := 0x200800D7,
              0x80101008 := 0x200804D7)\<rparr>"

lemmas map_eval = map_pages_def pt_eval boot_simps memset0_zero

lemma exec_map:
  "map_pages 0x80080000 0x400000 4096 0x80200000 (ucast (prot_to_type PROT_EXEC 1)) boot =
     Inr (0, exec_state)"
  by (simp add: map_eval exec_state_def)

lemma rw_map:
  "map_pages 0x80080000 0x400000 (of_nat 2 * PGSIZE) 0x80200000
     (ucast (prot_to_type (PROT_READ OR PROT_WRITE) 1)) boot = Inr (0, rw_state)"
  by (simp add: map_eval rw_state_def)

lemma boot_wf: "pt_wf 0x80080000 boot"
  by (simp add: pt_wf_def tables_wf_def l1_tables_def l0_tables_def boot_simps page_aligned_def)

lemma rw_wf: "pt_wf 0x80080000 rw_state"
  using map_pages_loop_inv [OF boot_wf rw_map [unfolded map_pages_def]] by simp

lemma rw_walk:
  "page_walk 0x80080000 0x400000 0 rw_state = Inr (0x80101000, rw_state)"
  "page_walk 0x80080000 0x401000 0 rw_state = Inr (0x80101008, rw_state)"
  "page_walk 0x80080000 0x400000 1 rw_state = Inr (0x80101000, rw_state)"
  by (simp_all add: pt_eval rw_state_def boot_simps)

text \<open>
  Claim C4 as stated fails for an execute-only mapping: \<^verbatim>\<open>map_pages\<close> succeeds and stores
  the bits of \<^verbatim>\<open>prot_to_type\<close>, but \<^verbatim>\<open>lookup_pa\<close> returns 0, not the page 0x80200000,
  because the entry carries neither PTE_R nor PTE_W.
\<close>

theorem map_pages_exec_only_counterexample:
  "map_pages 0x80080000 0x400000 4096 0x80200000 (ucast (prot_to_type PROT_EXEC 1)) boot =
     Inr (0, exec_state) \<and>
   page_walk 0x80080000 0x400000 0 exec_state = Inr (0x80101000, exec_state) \<and>
   mem exec_state 0x80101000 = PA2PTE 0x80200000 OR prot_to_type PROT_EXEC 1 OR PTE_V \<and>
   lookup_pa 0x80080000 0x400000 exec_state = Inr 0"
proof -
  have "page_walk 0x80080000 0x400000 0 exec_state = Inr (0x80101000, exec_state)"
    by (simp add: pt_eval exec_state_def boot_simps)
  moreover have "mem exec_state 0x80101000 = PA2PTE 0x80200000 OR prot_to_type PROT_EXEC 1 OR PTE_V"
    by (simp add: pt_eval exec_state_def boot_simps)
  moreover have "lookup_pa 0x80080000 0x400000 exec_state = Inr 0"
    by (simp add: lookup_pa_def pt_eval exec_state_def boot_simps)
  ultimately show ?thesis using exec_map by (intro conjI)
qed


theorem map_pages_then_lookup_witness:
  "pt_wf 0x80080000 boot \<and> page_aligned 0x400000 \<and> page_aligned 0x80200000 \<and>
   unat (0x400000 :: u64) + 2 * 4096 \<le> 2 ^ 38 \<and>
   map_pages 0x80080000 0x400000 (of_nat 2 * PGSIZE) 0x80200000
     (ucast (prot_to_type (PROT_READ OR PROT_WRITE) 1)) boot = Inr (0, rw_state) \<and>
   pt_wf 0x80080000 rw_state \<and>
   (\<exists>c. page_walk 0x80080000 0x401000 0 rw_state = Inr (c, rw_state) \<and> c \<noteq> 0 \<and>
        mem rw_state c = PA2PTE 0x80201000 OR prot_to_type (PROT_READ OR PROT_WRITE) 1 OR PTE_V \<and>
        lookup_pa 0x80080000 0x401000 rw_state = Inr 0x80201000)"
proof -
  have a: "page_aligned 0x400000" "page_aligned 0x80200000" by (simp_all add: page_aligned_def)
  have b: "unat (0x400000 :: u64) + 2 * 4096 \<le> 2 ^ 38" by simp
  from map_pages_then_lookup [OF boot_wf a _ b rw_map, of 1]
  have c: "pt_wf 0x80080000 rw_state \<and>
      (\<exists>c. page_walk 0x80080000 0x401000 0 rw_state = Inr (c, rw_state) \<and> c \<noteq> 0 \<and>
        mem rw_state c = PA2PTE 0x80201000 OR prot_to_type (PROT_READ OR PROT_WRITE) 1 OR PTE_V \<and>
        lookup_pa 0x80080000 0x401000 rw_state = Inr 0x80201000)"
    by (simp add: PGSIZE_def PROT_READ_def PROT_WRITE_def PROT_EXEC_def)
  from boot_wf a b rw_map c [THEN conjunct1] c [THEN conjunct2] show ?thesis by (intro conjI)
qed

text \<open>The boot state with a single free page: the root's table can be had, the next cannot.\<close>

definition low_state :: kstate where
  "low_state = boot\<lparr>free_mem := [0x80100000]\<rparr>"

definition out_state :: kstate where
  "out_state = boot\<lparr>free_mem := [], mem := (\<lambda>_. 0)(0x80080000 := 0x20040001)\<rparr>"

lemma low_map:
  "map_pages 0x80080000 0x400000 4096 0x80200000 (ucast (prot_to_type PROT_READ 1)) low_state =
     Inr (- 1, out_state)"
  by (simp add: map_eval low_state_def out_state_def)

lemma low_wf: "pt_wf 0x80080000 low_state"
  by (simp add: pt_wf_def tables_wf_def l1_tables_def l0_tables_def boot_simps page_aligned_def
      low_state_def)

text \<open>
  Claim C6.  A round of the loop of \<^verbatim>\<open>map_pages\<close> whose \<^verbatim>\<open>page_walk\<close> returns a valid
  entry ends in the panic.  On well-formed tables, when a page of the range is mapped
  already, \<^verbatim>\<open>map_pages\<close> ends in a panic, or with - 1 and that entry as it was: it never
  returns 0.  And on well-formed tables the only return values are 0, and - 1 from a
  \<^verbatim>\<open>page_walk\<close> that returned null with the allocator's list empty; the state
  returned is well formed again.  The boot state is well formed.
\<close>

theorem map_pages_failures:
  "(first \<le> lastp \<longrightarrow> page_walk pd first 1 s = Inr (pte, s1) \<longrightarrow> pte \<noteq> 0 \<longrightarrow>
      mem s1 pte AND PTE_V \<noteq> 0 \<longrightarrow>
      map_pages_loop pd first lastp pa perm s = Inl Panic_map_pages) \<and>
   (pt_wf pd s \<longrightarrow>
      page_walk pd (ROUNDDOWN va PGSIZE + of_nat k * PGSIZE) 0 s = Inr (c, s2) \<longrightarrow> c \<noteq> 0 \<longrightarrow>
      mem s c AND PTE_V \<noteq> 0 \<longrightarrow>
      unat (ROUNDDOWN va PGSIZE) + k * 4096 \<le> unat (ROUNDDOWN (va + sz - 1) PGSIZE) \<longrightarrow>
      (case map_pages pd va sz pa perm s of
         Inl e \<Rightarrow> e = Panic_map_pages \<or> e = Panic_page_walk
       | Inr (r, s') \<Rightarrow> r = - 1 \<and> mem s' c = mem s c)) \<and>
   (pt_wf pd s \<longrightarrow> map_pages pd va sz pa perm s = Inr (r, s') \<longrightarrow>
      pt_wf pd s' \<and>
      (r = 0 \<or> (r = - 1 \<and> free_mem s' = [] \<and> (\<exists>va0 s0. page_walk pd va0 1 s0 = Inr (0, s')))))"
proof (intro conjI impI)
  assume "first \<le> lastp" "page_walk pd first 1 s = Inr (pte, s1)" "pte \<noteq> 0"
    "mem s1 pte AND PTE_V \<noteq> 0"
  then show "map_pages_loop pd first lastp pa perm s = Inl Panic_map_pages"
    by (subst map_pages_loop.simps) simp
next
  assume wf: "pt_wf pd s"
    and pw: "page_walk pd (ROUNDDOWN va PGSIZE + of_nat k * PGSIZE) 0 s = Inr (c, s2)"
    and c: "c \<noteq> 0" and v: "mem s c AND PTE_V \<noteq> 0"
    and b: "unat (ROUNDDOWN va PGSIZE) + k * 4096 \<le> unat (ROUNDDOWN (va + sz - 1) PGSIZE)"
  from pw c have lc: "leaf_cell (mem s) pd (ROUNDDOWN va PGSIZE + of_nat k * PGSIZE) = Some c"
    by (rule page_walk_leaf)
  from v have pv: "pte_valid (mem s c)" by (simp add: pte_valid_def)
  show "case map_pages pd va sz pa perm s of
         Inl e \<Rightarrow> e = Panic_map_pages \<or> e = Panic_page_walk
       | Inr (r, s') \<Rightarrow> r = - 1 \<and> mem s' c = mem s c"
  proof (cases "map_pages pd va sz pa perm s")
    case (Inl e)
    then show ?thesis using map_pages_loop_panics [of pd _ _ pa perm s e]
      by (simp add: map_pages_def)
  next
    case (Inr p)
    obtain r s' where p: "p = (r, s')" by (cases p)
    from Inr p have l: "map_pages_loop pd (ROUNDDOWN va PGSIZE) (ROUNDDOWN (va + sz - 1) PGSIZE)
        pa perm s = Inr (r, s')"
      by (simp add: map_pages_def)
    from map_pages_loop_remap [OF wf lc pv b l] have "r \<noteq> 0" .
    moreover from map_pages_loop_inv [OF wf l] lc pv
    have "mem s' c = mem s c" "r = 0 \<or> r = - 1" unfolding keeps_def by blast+
    ultimately show ?thesis using Inr p by simp
  qed
next
  assume wf: "pt_wf pd s" and m: "map_pages pd va sz pa perm s = Inr (r, s')"
  from map_pages_loop_inv [OF wf m [unfolded map_pages_def]]
  show "pt_wf pd s'" by blast
next
  assume wf: "pt_wf pd s" and m: "map_pages pd va sz pa perm s = Inr (r, s')"
  from map_pages_loop_inv [OF wf m [unfolded map_pages_def]]
  show "r = 0 \<or> (r = - 1 \<and> free_mem s' = [] \<and> (\<exists>va0 s0. page_walk pd va0 1 s0 = Inr (0, s')))"
    by blast
qed

theorem map_pages_failures_witness:
  "pt_wf 0x80080000 boot \<and> pt_wf 0x80080000 rw_state \<and>
   page_walk 0x80080000 0x400000 1 rw_state = Inr (0x80101000, rw_state) \<and>
   page_walk 0x80080000 0x400000 0 rw_state = Inr (0x80101000, rw_state) \<and>
   mem rw_state 0x80101000 AND PTE_V \<noteq> 0 \<and>
   map_pages_loop 0x80080000 0x400000 0x400000 0x80300000 0x17 rw_state = Inl Panic_map_pages \<and>
   map_pages 0x80080000 0x400000 4096 0x80300000 0x17 rw_state = Inl Panic_map_pages \<and>
   pt_wf 0x80080000 low_state \<and>
   map_pages 0x80080000 0x400000 4096 0x80200000 (ucast (prot_to_type PROT_READ 1)) low_state =
     Inr (- 1, out_state) \<and>
   pt_wf 0x80080000 out_state \<and>
   free_mem out_state = [] \<and>
   (\<exists>va0 s0. page_walk 0x80080000 va0 1 s0 = Inr (0, out_state))"
proof -
  have v: "mem rw_state 0x80101000 AND PTE_V \<noteq> 0"
    by (simp add: rw_state_def PTE_V_def)
  have le: "(0x400000 :: u64) \<le> 0x400000" by simp
  have p: "map_pages_loop 0x80080000 0x400000 0x400000 0x80300000 0x17 rw_state = Inl Panic_map_pages"
    using map_pages_failures [of "0x400000" "0x400000" "0x80080000" rw_state "0x80101000" rw_state
        "0x80300000" "0x17"] le rw_walk(3) v
    by simp
  then have p': "map_pages 0x80080000 0x400000 4096 0x80300000 0x17 rw_state = Inl Panic_map_pages"
    by (simp add: map_pages_def ROUNDDOWN_def PGSIZE_def)
  have "(- 1 :: cint) \<noteq> 0" by simp
  with map_pages_failures [of _ _ "0x80080000" low_state _ _ "0x80200000"
      "ucast (prot_to_type PROT_READ 1)" "0x400000" _ _ _ 4096 "- 1" out_state] low_wf low_map
  have "pt_wf 0x80080000 out_state \<and> free_mem out_state = [] \<and>
      (\<exists>va0 s0. page_walk 0x80080000 va0 1 s0 = Inr (0, out_state))"
    by blast
  with boot_wf rw_wf rw_walk(3) rw_walk(1) v p p' low_wf low_map show ?thesis
    by (intro conjI) simp_all
qed


text \<open>
  Claim C7.  On well-formed tables, for a page-aligned range of \<open>n\<close> pages below MAXVA
  whose leaf entries exist, \<^verbatim>\<open>user_vm_unmap\<close> returns, for every value of \<open>free\<close>, the
  state in which the validity bit of each entry of the range is cleared and the pages
  of these entries have been handed to \<^verbatim>\<open>free_page\<close>, first page first; nothing else
  changes, and the tables are well formed again.  At any round of the loop whose \<^verbatim>\<open>page_walk\<close> returns an entry, that entry's
  validity bit is cleared, no other cell changes, and its page is handed to
  \<^verbatim>\<open>free_page\<close>.  The flag is not read: the result is the same for any two values.
\<close>

theorem user_vm_unmap_clears_and_frees:
  "(tables_wf pd (mem s) \<longrightarrow> page_aligned va \<longrightarrow> 0 < n \<longrightarrow> unat va + n * 4096 \<le> 2 ^ 38 \<longrightarrow>
      (\<forall>k<n. entry_of pd (va + of_nat k * PGSIZE) s \<noteq> 0) \<longrightarrow>
      user_vm_unmap pd va (of_nat n * PGSIZE) free s =
        Inr (s\<lparr>mem := clear_valid ((\<lambda>k. entry_of pd (va + of_nat k * PGSIZE) s) ` {..<n}) (mem s),
              free_mem := rev (map (\<lambda>k. PTE2PA (mem s (entry_of pd (va + of_nat k * PGSIZE) s)))
                                 [0..<n]) @ free_mem s\<rparr>) \<and>
      tables_wf pd
        (clear_valid ((\<lambda>k. entry_of pd (va + of_nat k * PGSIZE) s) ` {..<n}) (mem s))) \<and>
   (first \<le> lastp \<longrightarrow> page_walk pd first 1 s = Inr (pte, s1) \<longrightarrow> pte \<noteq> 0 \<longrightarrow>
      (\<exists>s2. user_vm_unmap_loop pd first lastp s =
               user_vm_unmap_loop pd (first + PGSIZE) lastp s2 \<and>
            mem s2 pte = mem s1 pte AND NOT PTE_V \<and>
            mem s2 pte AND PTE_V = 0 \<and>
            (\<forall>a. a \<noteq> pte \<longrightarrow> mem s2 a = mem s1 a) \<and>
            free_mem s2 = PTE2PA (mem s1 pte) # free_mem s1)) \<and>
   user_vm_unmap pd va sz free1 s = user_vm_unmap pd va sz free2 s"
proof (intro conjI impI)
  assume tw: "tables_wf pd (mem s)" and al: "page_aligned va" and n: "0 < n"
    and b: "unat va + n * 4096 \<le> 2 ^ 38"
    and e: "\<forall>k<n. entry_of pd (va + of_nat k * PGSIZE) s \<noteq> 0"
  let ?lastp = "ROUNDDOWN (va + of_nat n * PGSIZE - 1) PGSIZE"
  have l: "unat ?lastp = unat va + (n - 1) * 4096" using al n b by (rule range_last)
  with n have 1: "unat va + n * 4096 = unat ?lastp + 4096"
    by (cases n) simp_all
  with b have 2: "unat ?lastp + 4096 \<le> 2 ^ 38" by simp
  show "user_vm_unmap pd va (of_nat n * PGSIZE) free s =
        Inr (s\<lparr>mem := clear_valid ((\<lambda>k. entry_of pd (va + of_nat k * PGSIZE) s) ` {..<n}) (mem s),
              free_mem := rev (map (\<lambda>k. PTE2PA (mem s (entry_of pd (va + of_nat k * PGSIZE) s)))
                                 [0..<n]) @ free_mem s\<rparr>)"
    unfolding user_vm_unmap_def aligned_ROUNDDOWN [OF al]
    using tw 1 2 e by (rule unmap_loop_range)
  show "tables_wf pd
        (clear_valid ((\<lambda>k. entry_of pd (va + of_nat k * PGSIZE) s) ` {..<n}) (mem s))"
  proof (rule clear_valid_tables [OF tw])
    fix c assume "c \<in> (\<lambda>k. entry_of pd (va + of_nat k * PGSIZE) s) ` {..<n}"
    then obtain k where k: "k < n" "c = entry_of pd (va + of_nat k * PGSIZE) s" by auto
    with e have "entry_of pd (va + of_nat k * PGSIZE) s \<noteq> 0" by blast
    then have "leaf_cell (mem s) pd (va + of_nat k * PGSIZE) = Some c"
      unfolding k(2) by (auto simp: entry_of_leaf split: if_splits option.splits)
    then show "\<exists>va. leaf_cell (mem s) pd va = Some c" by blast
  qed
next
  assume a: "first \<le> lastp" and w: "page_walk pd first 1 s = Inr (pte, s1)" and n: "pte \<noteq> 0"
  let ?s2 = "free_page (PTE2PA (mem s1 pte AND NOT PTE_V)) (s1\<lparr>mem := (mem s1)(pte := mem s1 pte AND NOT PTE_V)\<rparr>)"
  have "user_vm_unmap_loop pd first lastp s = user_vm_unmap_loop pd (first + PGSIZE) lastp ?s2"
    using a w n by (subst user_vm_unmap_loop.simps) (simp add: Let_def)
  moreover have "mem ?s2 pte = mem s1 pte AND NOT PTE_V" by (simp add: free_page_def)
  moreover have "mem ?s2 pte AND PTE_V = 0" by (simp add: free_page_def clear_V_invalid)
  moreover have "\<forall>a. a \<noteq> pte \<longrightarrow> mem ?s2 a = mem s1 a" by (simp add: free_page_def)
  moreover have "free_mem ?s2 = PTE2PA (mem s1 pte) # free_mem s1"
    by (simp add: free_page_def PTE2PA_clear_V)
  ultimately show "\<exists>s2. user_vm_unmap_loop pd first lastp s =
               user_vm_unmap_loop pd (first + PGSIZE) lastp s2 \<and>
            mem s2 pte = mem s1 pte AND NOT PTE_V \<and>
            mem s2 pte AND PTE_V = 0 \<and>
            (\<forall>a. a \<noteq> pte \<longrightarrow> mem s2 a = mem s1 a) \<and>
            free_mem s2 = PTE2PA (mem s1 pte) # free_mem s1"
    by blast
next
  show "user_vm_unmap pd va sz free1 s = user_vm_unmap pd va sz free2 s"
    by (simp add: user_vm_unmap_def)
qed

lemma rw_entries:
  "entry_of 0x80080000 0x400000 rw_state = 0x80101000"
  "entry_of 0x80080000 0x401000 rw_state = 0x80101008"
  by (simp_all add: entry_of_def rw_walk)

theorem user_vm_unmap_clears_and_frees_witness:
  "tables_wf 0x80080000 (mem rw_state) \<and> page_aligned 0x400000 \<and>
   unat (0x400000 :: u64) + 2 * 4096 \<le> 2 ^ 38 \<and>
   entry_of 0x80080000 0x400000 rw_state = 0x80101000 \<and>
   entry_of 0x80080000 0x401000 rw_state = 0x80101008 \<and>
   mem rw_state 0x80101000 = 0x200800D7 \<and> mem rw_state 0x80101008 = 0x200804D7 \<and>
   lookup_pa 0x80080000 0x400000 rw_state = Inr 0x80200000 \<and>
   lookup_pa 0x80080000 0x401000 rw_state = Inr 0x80201000 \<and>
   (\<exists>s'. user_vm_unmap 0x80080000 0x400000 (of_nat 2 * PGSIZE) 0 rw_state = Inr s' \<and>
         user_vm_unmap 0x80080000 0x400000 (of_nat 2 * PGSIZE) 1 rw_state = Inr s' \<and>
         mem s' 0x80101000 = 0x200800D6 \<and> mem s' 0x80101008 = 0x200804D6 \<and>
         (\<forall>a. a \<noteq> 0x80101000 \<and> a \<noteq> 0x80101008 \<longrightarrow> mem s' a = mem rw_state a) \<and>
         free_mem s' = 0x80201000 # 0x80200000 # free_mem rw_state \<and>
         lookup_pa 0x80080000 0x400000 s' = Inr 0 \<and>
         lookup_pa 0x80080000 0x401000 s' = Inr 0)"
proof -
  have tw: "tables_wf 0x80080000 (mem rw_state)" using rw_wf by (rule pt_wf_mem)
  have al: "page_aligned 0x400000" by (simp add: page_aligned_def)
  have b: "unat (0x400000 :: u64) + 2 * 4096 \<le> 2 ^ 38" by simp
  have m: "mem rw_state 0x80101000 = 0x200800D7" "mem rw_state 0x80101008 = 0x200804D7"
    by (simp_all add: rw_state_def)
  have l: "lookup_pa 0x80080000 0x400000 rw_state = Inr 0x80200000"
    "lookup_pa 0x80080000 0x401000 rw_state = Inr 0x80201000"
    by (simp_all add: lookup_pa_def rw_walk m MAXVA_def PTE_V_def PTE_R_def PTE_W_def PTE2PA_def)
  have two: "{..<2 :: nat} = {0, 1}" "[0..<2] = [0, 1]"
    by (auto simp: numeral_2_eq_2)
  have e: "\<forall>k<2. entry_of 0x80080000 (0x400000 + of_nat k * PGSIZE) rw_state \<noteq> 0"
    by (simp add: less_2_cases_iff rw_entries PGSIZE_def)
  let ?s' = "rw_state\<lparr>mem := clear_valid {0x80101000, 0x80101008} (mem rw_state),
      free_mem := 0x80201000 # 0x80200000 # free_mem rw_state\<rparr>"
  have u: "user_vm_unmap 0x80080000 0x400000 (of_nat 2 * PGSIZE) free rw_state = Inr ?s'" for free
    using user_vm_unmap_clears_and_frees [of "0x80080000" rw_state "0x400000" 2 free] tw al b e
    by (simp add: two rw_entries PGSIZE_def m PTE2PA_def insert_commute)
  have c: "mem ?s' 0x80101000 = 0x200800D6" "mem ?s' 0x80101008 = 0x200804D6"
    "\<forall>a. a \<noteq> 0x80101000 \<and> a \<noteq> 0x80101008 \<longrightarrow> mem ?s' a = mem rw_state a"
    by (simp_all add: clear_valid_def m PTE_V_def)
  have w: "page_walk 0x80080000 0x400000 0 ?s' = Inr (0x80101000, ?s')"
    "page_walk 0x80080000 0x401000 0 ?s' = Inr (0x80101008, ?s')"
    by (simp_all add: pt_eval clear_valid_def rw_state_def boot_simps)
  have l': "lookup_pa 0x80080000 0x400000 ?s' = Inr 0" "lookup_pa 0x80080000 0x401000 ?s' = Inr 0"
    using c(1,2) by (simp_all add: lookup_pa_def w MAXVA_def PTE_V_def)
  have "\<exists>s'. user_vm_unmap 0x80080000 0x400000 (of_nat 2 * PGSIZE) 0 rw_state = Inr s' \<and>
         user_vm_unmap 0x80080000 0x400000 (of_nat 2 * PGSIZE) 1 rw_state = Inr s' \<and>
         mem s' 0x80101000 = 0x200800D6 \<and> mem s' 0x80101008 = 0x200804D6 \<and>
         (\<forall>a. a \<noteq> 0x80101000 \<and> a \<noteq> 0x80101008 \<longrightarrow> mem s' a = mem rw_state a) \<and>
         free_mem s' = 0x80201000 # 0x80200000 # free_mem rw_state \<and>
         lookup_pa 0x80080000 0x400000 s' = Inr 0 \<and>
         lookup_pa 0x80080000 0x401000 s' = Inr 0"
    using u [of 0] u [of 1] c l' by (intro exI [of _ ?s'] conjI) simp_all
  with tw al b rw_entries m l show ?thesis by (intro conjI)
qed


section \<open>Reuse of a freed page\<close>
























end
